theory Spec2Isabelle
  imports Complex_Main "HOL-Library.Word" "HOL-Library.Monad_Syntax" "HOL-Library.AList"
begin

section \<open>LruCache: the node store and the cache object\<close>

text \<open>
  The nodes of an \<open>LruCache\<close> live in a store addressed by natural numbers. A
  \<open>std::shared_ptr<Node>\<close> or \<open>std::weak_ptr<Node>\<close> is an \<open>addr option\<close>, \<open>None\<close>
  being the empty pointer. \<open>std::make_shared\<close> takes the address \<open>fresh\<close> and
  advances it, so a new node never aliases an older one. Nothing is ever freed in the store;
  \<open>prev_.lock()\<close> is read as the pointer itself, which is what the source computes as
  long as a \<open>prev_\<close> pointer only points to a node that is still linked (and therefore
  still owned); the structural invariant \<open>dll\<close> below says so.

  A member \<open>x_\<close> of a class is the field \<open>x\<close> here, and the members of \<open>Node\<close> are the
  fields \<open>node_key\<close>, \<open>node_value\<close>, \<open>node_prev\<close> and \<open>node_next\<close>: a name cannot end in
  an underscore. The mutexes are left out: every member function holds the lock of its
  object from its first access to its return, so calls on one object happen one after the
  other.
\<close>

type_synonym addr = nat

record ('k, 'v) Node =
  node_key :: 'k
  node_value :: 'v
  node_prev :: "addr option"
  node_next :: "addr option"

record ('k, 'v) LruCache =
  capacity :: nat
  nodeMap :: "'k \<rightharpoonup> addr"
  dummyHead :: addr
  dummyTail :: addr
  heap :: "addr \<Rightarrow> ('k, 'v) Node"
  fresh :: addr

text \<open>\<open>Node()\<close> and \<open>Node(key, value)\<close>: both leave the two links empty. The
  value-initialised key and value of a sentinel are the parameters \<open>k0\<close> and \<open>v0\<close>.\<close>

definition mkNode :: "'k \<Rightarrow> 'v \<Rightarrow> ('k, 'v) Node" where
  "mkNode key val = \<lparr>node_key = key, node_value = val, node_prev = None, node_next = None\<rparr>"

text \<open>\<open>std::make_shared<Node>(...)\<close>: the new node's address and the store holding it.\<close>

definition make_shared :: "('k, 'v) LruCache \<Rightarrow> ('k, 'v) Node \<Rightarrow> addr \<times> ('k, 'v) LruCache" where
  "make_shared s n = (fresh s, s\<lparr>heap := (heap s)(fresh s := n), fresh := Suc (fresh s)\<rparr>)"

text \<open>Assignments through a node pointer.\<close>

definition set_next :: "addr \<Rightarrow> addr option \<Rightarrow> ('k, 'v) LruCache \<Rightarrow> ('k, 'v) LruCache" where
  "set_next a p s = s\<lparr>heap := (heap s)(a := (heap s a)\<lparr>node_next := p\<rparr>)\<rparr>"

definition set_prev :: "addr \<Rightarrow> addr option \<Rightarrow> ('k, 'v) LruCache \<Rightarrow> ('k, 'v) LruCache" where
  "set_prev a p s = s\<lparr>heap := (heap s)(a := (heap s a)\<lparr>node_prev := p\<rparr>)\<rparr>"

definition setValue :: "addr \<Rightarrow> 'v \<Rightarrow> ('k, 'v) LruCache \<Rightarrow> ('k, 'v) LruCache" where
  "setValue a v s = s\<lparr>heap := (heap s)(a := (heap s a)\<lparr>node_value := v\<rparr>)\<rparr>"

definition getKey :: "('k, 'v) LruCache \<Rightarrow> addr \<Rightarrow> 'k" where
  "getKey s a = node_key (heap s a)"

definition getValue :: "('k, 'v) LruCache \<Rightarrow> addr \<Rightarrow> 'v" where
  "getValue s a = node_value (heap s a)"

subsection \<open>The private list operations\<close>

text \<open>\<open>initializeList\<close>: two sentinels, linked to each other.\<close>

definition initializeList :: "'k \<Rightarrow> 'v \<Rightarrow> ('k, 'v) LruCache \<Rightarrow> ('k, 'v) LruCache" where
  "initializeList k0 v0 s =
     (let (hd_a, s1) = make_shared s (mkNode k0 v0);
          s2 = s1\<lparr>dummyHead := hd_a\<rparr>;
          (tl_a, s3) = make_shared s2 (mkNode k0 v0);
          s4 = s3\<lparr>dummyTail := tl_a\<rparr>;
          s5 = set_next (dummyHead s4) (Some (dummyTail s4)) s4
      in set_prev (dummyTail s5) (Some (dummyHead s5)) s5)"

text \<open>\<open>removeNode\<close>: a node with an empty \<open>prev_\<close> or \<open>next_\<close> is left alone (it is not
  on the list, or it is a sentinel).\<close>

definition removeNode :: "('k, 'v) LruCache \<Rightarrow> addr \<Rightarrow> ('k, 'v) LruCache" where
  "removeNode s node =
     (case (node_prev (heap s node), node_next (heap s node)) of
        (Some prev, Some nxt) \<Rightarrow>
          (let s1 = set_next prev (Some nxt) s;
               s2 = set_prev nxt (Some prev) s1;
               s3 = set_next node None s2
           in set_prev node None s3)
      | _ \<Rightarrow> s)"

text \<open>\<open>insertNode\<close>: insertion before the tail sentinel. The \<open>assert\<close> on the tail's
  \<open>prev_\<close> is the one place where the class can abort; \<open>None\<close> is that abort.\<close>

definition insertNode :: "('k, 'v) LruCache \<Rightarrow> addr \<Rightarrow> ('k, 'v) LruCache option" where
  "insertNode s node =
     (case node_prev (heap s (dummyTail s)) of
        None \<Rightarrow> None
      | Some prev \<Rightarrow>
          (let s1 = set_next node (Some (dummyTail s)) s;
               s2 = set_prev node (Some prev) s1;
               s3 = set_next prev (Some node) s2
           in Some (set_prev (dummyTail s3) (Some node) s3)))"

definition moveToMostRecent :: "('k, 'v) LruCache \<Rightarrow> addr \<Rightarrow> ('k, 'v) LruCache option" where
  "moveToMostRecent s node = insertNode (removeNode s node) node"

definition updateExistingNode :: "('k, 'v) LruCache \<Rightarrow> addr \<Rightarrow> 'v \<Rightarrow> ('k, 'v) LruCache option" where
  "updateExistingNode s node val = moveToMostRecent (setValue node val s) node"

text \<open>\<open>evictLeastRecent\<close>: the node after the head sentinel, unless that is the tail.\<close>

definition evictLeastRecent :: "('k, 'v) LruCache \<Rightarrow> ('k, 'v) LruCache" where
  "evictLeastRecent s =
     (case node_next (heap s (dummyHead s)) of
        None \<Rightarrow> s
      | Some leastRecent \<Rightarrow>
          if leastRecent = dummyTail s then s
          else (let s1 = removeNode s leastRecent
                in s1\<lparr>nodeMap := (nodeMap s1)(getKey s1 leastRecent := None)\<rparr>))"

text \<open>\<open>nodeMap_.size()\<close> and \<open>nodeMap_.try_emplace\<close>.\<close>

definition map_size :: "('k \<rightharpoonup> addr) \<Rightarrow> nat" where
  "map_size m = card (dom m)"

definition try_emplace :: "('k \<rightharpoonup> addr) \<Rightarrow> 'k \<Rightarrow> addr \<Rightarrow> ('k \<rightharpoonup> addr)" where
  "try_emplace m key a = (case m key of None \<Rightarrow> m(key \<mapsto> a) | Some _ \<Rightarrow> m)"

definition addNewNode :: "('k, 'v) LruCache \<Rightarrow> 'k \<Rightarrow> 'v \<Rightarrow> ('k, 'v) LruCache option" where
  "addNewNode s key val =
     (let s1 = (if map_size (nodeMap s) \<ge> capacity s then evictLeastRecent s else s);
          (newNode, s2) = make_shared s1 (mkNode key val)
      in do {
        s3 \<leftarrow> insertNode s2 newNode;
        Some (s3\<lparr>nodeMap := try_emplace (nodeMap s3) key newNode\<rparr>)
      })"

subsection \<open>The public interface\<close>

text \<open>\<open>LruCache(int capacity)\<close>. The store of a cache that has allocated nothing yet
  holds unlinked nodes everywhere.\<close>

definition LruCache_new :: "'k \<Rightarrow> 'v \<Rightarrow> int \<Rightarrow> ('k, 'v) LruCache" where
  "LruCache_new k0 v0 cap =
     initializeList k0 v0
       \<lparr>capacity = (if cap > 0 then nat cap else 0),
        nodeMap = Map.empty,
        dummyHead = 0,
        dummyTail = 0,
        heap = (\<lambda>_. mkNode k0 v0),
        fresh = 0\<rparr>"

definition put :: "('k, 'v) LruCache \<Rightarrow> 'k \<Rightarrow> 'v \<Rightarrow> ('k, 'v) LruCache option" where
  "put s key val =
     (if capacity s = 0 then Some s
      else case nodeMap s key of
             Some node \<Rightarrow> updateExistingNode s node val
           | None \<Rightarrow> addNewNode s key val)"

text \<open>\<open>bool get(const Key&, Value&)\<close>: the reference parameter comes in as \<open>val\<close> and
  goes out as the second component; a miss leaves it as it came.\<close>

definition get :: "('k, 'v) LruCache \<Rightarrow> 'k \<Rightarrow> 'v \<Rightarrow> (bool \<times> 'v \<times> ('k, 'v) LruCache) option" where
  "get s key val =
     (case nodeMap s key of
        Some node \<Rightarrow> do {
          s1 \<leftarrow> moveToMostRecent s node;
          Some (True, getValue s1 node, s1)
        }
      | None \<Rightarrow> Some (False, val, s))"

text \<open>\<open>Value get(const Key&)\<close>; \<open>v0\<close> is the value-initialised \<open>Value{}\<close>.\<close>

definition get_value :: "'v \<Rightarrow> ('k, 'v) LruCache \<Rightarrow> 'k \<Rightarrow> ('v \<times> ('k, 'v) LruCache) option" where
  "get_value v0 s key = do {
     (found, val, s1) \<leftarrow> get s key v0;
     Some (val, s1)
   }"

definition remove :: "('k, 'v) LruCache \<Rightarrow> 'k \<Rightarrow> ('k, 'v) LruCache" where
  "remove s key =
     (case nodeMap s key of
        Some node \<Rightarrow> (let s1 = removeNode s node in s1\<lparr>nodeMap := (nodeMap s1)(key := None)\<rparr>)
      | None \<Rightarrow> s)"


subsection \<open>Sequences of calls\<close>

datatype ('k, 'v) lru_op = Put 'k 'v | Get 'k

text \<open>A client that calls \<open>put\<close> and \<open>get(key, value)\<close> in some order, each \<open>get\<close> on a
  variable holding \<open>v\<close>; the outcome of every \<open>get\<close> is recorded.\<close>

fun lru_run :: "'v \<Rightarrow> ('k, 'v) LruCache \<Rightarrow> ('k, 'v) lru_op list
    \<Rightarrow> ((bool \<times> 'v) list \<times> ('k, 'v) LruCache) option" where
  "lru_run v s [] = Some ([], s)"
| "lru_run v s (Put key val # ops) = do {
     s1 \<leftarrow> put s key val;
     lru_run v s1 ops
   }"
| "lru_run v s (Get key # ops) = do {
     (found, val, s1) \<leftarrow> get s key v;
     (rs, s2) \<leftarrow> lru_run v s1 ops;
     Some ((found, val) # rs, s2)
   }"

fun is_Get :: "('k, 'v) lru_op \<Rightarrow> bool" where
  "is_Get (Get _) = True"
| "is_Get (Put _ _) = False"

text \<open>The states a cache object can be in: built by the constructor, then changed by the
  public member functions only.\<close>

inductive reachable :: "('k, 'v) LruCache \<Rightarrow> bool" where
  r_new: "reachable (LruCache_new k0 v0 cap)"
| r_put: "reachable s \<Longrightarrow> put s key val = Some s1 \<Longrightarrow> reachable s1"
| r_get: "reachable s \<Longrightarrow> get s key val = Some (found, val1, s1) \<Longrightarrow> reachable s1"
| r_remove: "reachable s \<Longrightarrow> reachable (remove s key)"

subsection \<open>Reading the list off the store\<close>

text \<open>The nodes from \<open>dummyHead_->next_\<close> up to the tail sentinel, oldest first. The walk
  is bounded by the number of allocated nodes.\<close>

fun walk :: "nat \<Rightarrow> (addr \<Rightarrow> ('k, 'v) Node) \<Rightarrow> addr option \<Rightarrow> addr \<Rightarrow> addr list" where
  "walk 0 h p t = []"
| "walk (Suc n) h None t = []"
| "walk (Suc n) h (Some a) t = (if a = t then [] else a # walk n h (node_next (h a)) t)"

definition lru_nodes :: "('k, 'v) LruCache \<Rightarrow> addr list" where
  "lru_nodes s = walk (fresh s) (heap s) (node_next (heap s (dummyHead s))) (dummyTail s)"

definition lru_keys :: "('k, 'v) LruCache \<Rightarrow> 'k list" where
  "lru_keys s = map (getKey s) (lru_nodes s)"

definition entries :: "('k, 'v) LruCache \<Rightarrow> ('k \<times> 'v) list" where
  "entries s = map (\<lambda>a. (getKey s a, getValue s a)) (lru_nodes s)"

subsection \<open>The representation invariant\<close>

text \<open>\<open>linked h xs\<close>: in the store \<open>h\<close> each element of \<open>xs\<close> has the following one as
  \<open>next_\<close> and is the \<open>prev_\<close> of the following one.\<close>

fun linked :: "(addr \<Rightarrow> ('k, 'v) Node) \<Rightarrow> addr list \<Rightarrow> bool" where
  "linked h (a # b # r) = (node_next (h a) = Some b \<and> node_prev (h b) = Some a \<and> linked h (b # r))"
| "linked h _ = True"

definition chain :: "('k, 'v) LruCache \<Rightarrow> addr list \<Rightarrow> addr list" where
  "chain s ns = dummyHead s # ns @ [dummyTail s]"

text \<open>\<open>dll s ns\<close>: the list of the cache is head sentinel, the nodes \<open>ns\<close>, tail sentinel,
  all different and all allocated.\<close>

definition dll :: "('k, 'v) LruCache \<Rightarrow> addr list \<Rightarrow> bool" where
  "dll s ns \<longleftrightarrow> distinct (chain s ns) \<and> (\<forall>a\<in>set (chain s ns). a < fresh s) \<and>
     linked (heap s) (chain s ns)"

text \<open>\<open>indexed s ns\<close>: the index maps exactly the keys of the nodes \<open>ns\<close>, each to its node.\<close>

definition indexed :: "('k, 'v) LruCache \<Rightarrow> addr list \<Rightarrow> bool" where
  "indexed s ns \<longleftrightarrow> (\<forall>key a. nodeMap s key = Some a \<longleftrightarrow> a \<in> set ns \<and> getKey s a = key) \<and>
     distinct (map (getKey s) ns)"

definition lru_inv :: "('k, 'v) LruCache \<Rightarrow> bool" where
  "lru_inv s \<longleftrightarrow> dll s (lru_nodes s) \<and> indexed s (lru_nodes s) \<and> length (lru_nodes s) \<le> capacity s"

text \<open>Two states that differ in the links of their nodes only.\<close>

definition same_data :: "('k, 'v) LruCache \<Rightarrow> ('k, 'v) LruCache \<Rightarrow> bool" where
  "same_data s s' \<longleftrightarrow> capacity s' = capacity s \<and> nodeMap s' = nodeMap s \<and>
     dummyHead s' = dummyHead s \<and> dummyTail s' = dummyTail s \<and> fresh s' = fresh s \<and>
     (\<forall>a. node_key (heap s' a) = node_key (heap s a) \<and> node_value (heap s' a) = node_value (heap s a))"

section \<open>LruKCache\<close>

text \<open>The base-class subobject is the field \<open>base\<close>. The history cache holds \<open>size_t\<close>
  counts, 64-bit words; \<open>k_\<close> is an \<open>int\<close>, a 32-bit word read as signed.\<close>

record ('k, 'v) LruKCache =
  base :: "('k, 'v) LruCache"
  lruk_k :: "32 word"
  historyList :: "('k, 64 word) LruCache"
  historyValueMap :: "'k \<rightharpoonup> 'v"

definition LruKCache_new :: "'k \<Rightarrow> 'v \<Rightarrow> int \<Rightarrow> int \<Rightarrow> 32 word \<Rightarrow> ('k, 'v) LruKCache" where
  "LruKCache_new k0 v0 cap historyCapacity k =
     \<lparr>base = LruCache_new k0 v0 cap,
      lruk_k = k,
      historyList = LruCache_new k0 0 historyCapacity,
      historyValueMap = Map.empty\<rparr>"

text \<open>\<open>historyCount >= k_\<close> compares a \<open>size_t\<close> with an \<open>int\<close>: the \<open>int\<close> is converted to
  \<open>size_t\<close> (sign-extended) and the comparison is unsigned.\<close>

definition reached_k :: "64 word \<Rightarrow> 32 word \<Rightarrow> bool" where
  "reached_k historyCount k \<longleftrightarrow> (scast k :: 64 word) \<le> historyCount"

definition LruKCache_get :: "'v \<Rightarrow> ('k, 'v) LruKCache \<Rightarrow> 'k \<Rightarrow> ('v \<times> ('k, 'v) LruKCache) option" where
  "LruKCache_get v0 s key = do {
     (inMainCache, val, m1) \<leftarrow> get (base s) key v0;
     (count0, h1) \<leftarrow> get_value 0 (historyList s) key;
     let historyCount = count0 + 1;
     h2 \<leftarrow> put h1 key historyCount;
     let s1 = s\<lparr>base := m1, historyList := h2\<rparr>;
     if inMainCache then Some (val, s1)
     else if reached_k historyCount (lruk_k s) then
       (case historyValueMap s1 key of
          Some storedValue \<Rightarrow> do {
            let h3 = remove h2 key;
            let hv = (historyValueMap s1)(key := None);
            m2 \<leftarrow> put m1 key storedValue;
            Some (storedValue, s1\<lparr>base := m2, historyList := h3, historyValueMap := hv\<rparr>)
          }
        | None \<Rightarrow> Some (val, s1))
     else Some (val, s1)
   }"

definition LruKCache_put :: "'v \<Rightarrow> ('k, 'v) LruKCache \<Rightarrow> 'k \<Rightarrow> 'v \<Rightarrow> ('k, 'v) LruKCache option" where
  "LruKCache_put v0 s key val = do {
     (inMainCache, existingValue, m1) \<leftarrow> get (base s) key v0;
     if inMainCache then do {
       m2 \<leftarrow> put m1 key val;
       Some (s\<lparr>base := m2\<rparr>)
     }
     else do {
       (count0, h1) \<leftarrow> get_value 0 (historyList s) key;
       let historyCount = count0 + 1;
       h2 \<leftarrow> put h1 key historyCount;
       let hv = (historyValueMap s)(key \<mapsto> val);
       if reached_k historyCount (lruk_k s) then do {
         let h3 = remove h2 key;
         let hv1 = hv(key := None);
         m2 \<leftarrow> put m1 key val;
         Some (s\<lparr>base := m2, historyList := h3, historyValueMap := hv1\<rparr>)
       }
       else Some (s\<lparr>base := m1, historyList := h2, historyValueMap := hv\<rparr>)
     }
   }"

text \<open>The count that a call on \<open>key\<close> reads from the history cache and increments: the
  local variable \<open>historyCount\<close> at the threshold test.\<close>

definition historyCount_of :: "('k, 'v) LruKCache \<Rightarrow> 'k \<Rightarrow> 64 word" where
  "historyCount_of s key = (case get_value 0 (historyList s) key of
      Some (count0, h1) \<Rightarrow> count0 + 1 | None \<Rightarrow> 0)"

definition in_main :: "('k, 'v) LruKCache \<Rightarrow> 'k \<Rightarrow> bool" where
  "in_main s key \<longleftrightarrow> nodeMap (base s) key \<noteq> None"

section \<open>KHashLruCaches\<close>

record ('k, 'v) KHashLruCaches =
  khash_capacity :: nat
  sliceNum :: int
  lruSliceCaches :: "('k, 'v) LruCache list"

text \<open>\<open>std::ceil(capacity / static_cast<double>(sliceNum_))\<close>. The quotient is computed in
  double precision. Below \<open>2^53\<close> the capacity converts exactly, and the rounded quotient of
  two integers \<open>c < 2^53\<close> and \<open>n\<close> lies strictly between the same two integers as the exact
  one whenever that is not an integer (it is at least \<open>1/n\<close> away from both, more than half
  a unit in the last place), so the ceiling is the exact one. The constructor is modelled
  on that range only; \<open>None\<close> is a call outside of it (or one with no slice at all, where
  the source divides by zero).\<close>

definition ceil_div :: "nat \<Rightarrow> int \<Rightarrow> nat" where
  "ceil_div c n = nat \<lceil>real c / real_of_int n\<rceil>"

text \<open>The \<open>size_t\<close> slice size is passed to \<open>LruCache(int capacity)\<close>: the conversion keeps
  the low 32 bits, read as signed.\<close>

definition size_t_to_int :: "nat \<Rightarrow> int" where
  "size_t_to_int n = sint (word_of_nat n :: 32 word)"

text \<open>\<open>hw\<close> is what \<open>std::thread::hardware_concurrency()\<close> returns.\<close>

definition KHashLruCaches_new :: "'k \<Rightarrow> 'v \<Rightarrow> nat \<Rightarrow> nat \<Rightarrow> int \<Rightarrow> ('k, 'v) KHashLruCaches option" where
  "KHashLruCaches_new k0 v0 hw cap n =
     (let sliceNum1 = (if n > 0 then n else int hw) in
      if sliceNum1 \<le> 0 \<or> cap \<ge> 2 ^ 53 then None
      else
        let sliceSize = ceil_div cap sliceNum1
        in Some \<lparr>khash_capacity = cap,
                 sliceNum = sliceNum1,
                 lruSliceCaches =
                   map (\<lambda>i. LruCache_new k0 v0 (size_t_to_int sliceSize)) [0..<nat sliceNum1]\<rparr>)"

text \<open>The capacities of the slices of a constructed cache, slice by slice.\<close>

definition slice_capacities :: "('k, 'v) KHashLruCaches option \<Rightarrow> nat list option" where
  "slice_capacities c = map_option (\<lambda>s. map capacity (lruSliceCaches s)) c"

text \<open>\<open>Hash(key) % sliceNum_\<close>, with \<open>Hash\<close> the \<open>std::hash<Key>\<close> of the key type, a
  parameter here. Indexing the vector out of range is undefined in the source and \<open>None\<close>
  here.\<close>

definition sliceIndex :: "('k \<Rightarrow> 64 word) \<Rightarrow> ('k, 'v) KHashLruCaches \<Rightarrow> 'k \<Rightarrow> nat" where
  "sliceIndex Hash s key = unat (Hash key) mod nat (sliceNum s)"

definition KHashLruCaches_put ::
    "('k \<Rightarrow> 64 word) \<Rightarrow> ('k, 'v) KHashLruCaches \<Rightarrow> 'k \<Rightarrow> 'v \<Rightarrow> ('k, 'v) KHashLruCaches option" where
  "KHashLruCaches_put Hash s key val =
     (let i = sliceIndex Hash s key in
      if i < length (lruSliceCaches s) then do {
        c \<leftarrow> put (lruSliceCaches s ! i) key val;
        Some (s\<lparr>lruSliceCaches := (lruSliceCaches s)[i := c]\<rparr>)
      }
      else None)"

definition KHashLruCaches_get ::
    "('k \<Rightarrow> 64 word) \<Rightarrow> ('k, 'v) KHashLruCaches \<Rightarrow> 'k \<Rightarrow> 'v
      \<Rightarrow> (bool \<times> 'v \<times> ('k, 'v) KHashLruCaches) option" where
  "KHashLruCaches_get Hash s key val =
     (let i = sliceIndex Hash s key in
      if i < length (lruSliceCaches s) then do {
        (found, val1, c) \<leftarrow> get (lruSliceCaches s ! i) key val;
        Some (found, val1, s\<lparr>lruSliceCaches := (lruSliceCaches s)[i := c]\<rparr>)
      }
      else None)"

text \<open>Inserting a list of pairs, then querying a list of keys, each into a variable
  holding \<open>v\<close>.\<close>

fun KHash_put_all ::
    "('k \<Rightarrow> 64 word) \<Rightarrow> ('k, 'v) KHashLruCaches \<Rightarrow> ('k \<times> 'v) list \<Rightarrow> ('k, 'v) KHashLruCaches option" where
  "KHash_put_all Hash s [] = Some s"
| "KHash_put_all Hash s ((key, val) # kvs) = do {
     s1 \<leftarrow> KHashLruCaches_put Hash s key val;
     KHash_put_all Hash s1 kvs
   }"

fun KHash_get_all ::
    "('k \<Rightarrow> 64 word) \<Rightarrow> 'v \<Rightarrow> ('k, 'v) KHashLruCaches \<Rightarrow> 'k list \<Rightarrow> (bool \<times> 'v) list option" where
  "KHash_get_all Hash v s [] = Some []"
| "KHash_get_all Hash v s (key # keys) = do {
     (found, val, s1) \<leftarrow> KHashLruCaches_get Hash s key v;
     rs \<leftarrow> KHash_get_all Hash v s1 keys;
     Some ((found, val) # rs)
   }"

definition KHash_roundtrip ::
    "('k \<Rightarrow> 64 word) \<Rightarrow> 'v \<Rightarrow> ('k, 'v) KHashLruCaches option \<Rightarrow> ('k \<times> 'v) list
      \<Rightarrow> (bool \<times> 'v) list option" where
  "KHash_roundtrip Hash v c kvs = do {
     s \<leftarrow> c;
     s1 \<leftarrow> KHash_put_all Hash s kvs;
     KHash_get_all Hash v s1 (map fst kvs)
   }"

text \<open>A hash of natural-number keys: the key itself, as \<open>std::hash\<close> of an integer type
  commonly is.\<close>

definition nat_hash :: "nat \<Rightarrow> 64 word" where
  "nat_hash key = word_of_nat key"

text \<open>The pairs of a list whose key goes to slice \<open>i\<close> of \<open>n\<close>.\<close>

definition routed :: "('k \<Rightarrow> 64 word) \<Rightarrow> nat \<Rightarrow> nat \<Rightarrow> ('k \<times> 'v) list \<Rightarrow> ('k \<times> 'v) list" where
  "routed Hash n i kvs = filter (\<lambda>kv. unat (Hash (fst kv)) mod n = i) kvs"


text \<open>\<open>slices_hold Hash s c kvs\<close>: every slice is well formed, has capacity \<open>c\<close> and holds,
  in order, the pairs of \<open>kvs\<close> routed to it. \<open>slices_map Hash s m\<close>: every slice is well
  formed and answers for each of its keys what the map \<open>m\<close> does.\<close>

definition slices_hold ::
    "('k \<Rightarrow> 64 word) \<Rightarrow> ('k, 'v) KHashLruCaches \<Rightarrow> nat \<Rightarrow> ('k \<times> 'v) list \<Rightarrow> bool" where
  "slices_hold Hash s c kvs \<longleftrightarrow>
     0 < sliceNum s \<and> length (lruSliceCaches s) = nat (sliceNum s) \<and>
     (\<forall>i<nat (sliceNum s). lru_inv (lruSliceCaches s ! i) \<and> capacity (lruSliceCaches s ! i) = c \<and>
        entries (lruSliceCaches s ! i) = routed Hash (nat (sliceNum s)) i kvs)"

definition slices_map ::
    "('k \<Rightarrow> 64 word) \<Rightarrow> ('k, 'v) KHashLruCaches \<Rightarrow> ('k \<rightharpoonup> 'v) \<Rightarrow> bool" where
  "slices_map Hash s m \<longleftrightarrow>
     0 < sliceNum s \<and> length (lruSliceCaches s) = nat (sliceNum s) \<and>
     (\<forall>i<nat (sliceNum s). lru_inv (lruSliceCaches s ! i) \<and>
        (\<forall>key. sliceIndex Hash s key = i \<longrightarrow> map_of (entries (lruSliceCaches s ! i)) key = m key))"

section \<open>The LFU core\<close>

text \<open>
  \<open>LfuCache.h\<close>, the header of the LFU cache that the tests include, is not among the
  sources. The single-shard LFU core is therefore taken from the specification: its data
  model (section 3) and \<open>put\<close>, \<open>get\<close>, promote, evict and the aging condition (section
  4.2).
\<close>

text \<open>Modelled from the spec: the state of the LFU core, whose implementation \<open>LfuCache.h\<close>
  is missing. A node is its entry in the key-to-node index: the key with the value and the
  frequency. A frequency bucket is the list of its members' keys, the oldest first; a
  frequency without members has the empty bucket. \<open>totalFrequency\<close> is the running
  total-frequency counter.\<close>

record ('k, 'v) LfuCore =
  lfu_capacity :: nat
  lfu_index :: "('k \<times> 'v \<times> nat) list"
  lfu_buckets :: "nat \<Rightarrow> 'k list"
  minFrequency :: nat
  maxAverageFrequency :: nat
  totalFrequency :: nat

text \<open>Modelled from the spec: the missing constructor \<open>LfuCache(capacity,
  maxAverageFrequency)\<close>, where a capacity \<open>\<le> 0\<close> gives the always-empty cache. The
  specification leaves \<open>minFrequency\<close> of an empty cache open; it is 1 here.\<close>

definition LfuCache_new :: "int \<Rightarrow> nat \<Rightarrow> ('k, 'v) LfuCore" where
  "LfuCache_new cap maxAvg =
     \<lparr>lfu_capacity = (if cap > 0 then nat cap else 0),
      lfu_index = [],
      lfu_buckets = (\<lambda>_. []),
      minFrequency = 1,
      maxAverageFrequency = maxAvg,
      totalFrequency = 0\<rparr>"

text \<open>Modelled from the spec: \<open>append(node)\<close> of the missing bucket list, insertion
  immediately before the tail sentinel.\<close>

definition bucket_append :: "'k \<Rightarrow> 'k list \<Rightarrow> 'k list" where
  "bucket_append key b = b @ [key]"

text \<open>Modelled from the spec: \<open>unlink(node)\<close> of the missing bucket list, a no-op on a node
  that is not linked.\<close>

definition bucket_unlink :: "'k \<Rightarrow> 'k list \<Rightarrow> 'k list" where
  "bucket_unlink key b = remove1 key b"

text \<open>Modelled from the spec: \<open>firstNode()\<close> of the missing bucket list, the oldest member
  or nothing.\<close>

definition firstNode :: "'k list \<Rightarrow> 'k option" where
  "firstNode b = (case b of [] \<Rightarrow> None | key # _ \<Rightarrow> Some key)"

text \<open>The frequency of a node.\<close>

definition node_frequency :: "'k \<times> 'v \<times> nat \<Rightarrow> nat" where
  "node_frequency n = snd (snd n)"

text \<open>Modelled from the spec: the missing aging condition, \<open>the running total-frequency
  counter divided by the current index size exceeds maxAverageFrequency\<close>, in integer
  arithmetic.\<close>

definition aging_due :: "('k, 'v) LfuCore \<Rightarrow> bool" where
  "aging_due s \<longleftrightarrow> lfu_index s \<noteq> [] \<and>
     totalFrequency s div length (lfu_index s) > maxAverageFrequency s"

text \<open>Modelled from the spec: what the missing sweep does to a frequency, \<open>halved (minimum
  1)\<close>.\<close>

definition halve :: "nat \<Rightarrow> nat" where
  "halve f = max 1 (f div 2)"

text \<open>Modelled from the spec: the missing sweep relocates a node \<open>into the bucket matching
  its new frequency\<close>.\<close>

definition relocate :: "'k \<times> 'v \<times> nat \<Rightarrow> (nat \<Rightarrow> 'k list) \<Rightarrow> (nat \<Rightarrow> 'k list)" where
  "relocate n b = b(node_frequency n := bucket_append (fst n) (b (node_frequency n)))"

text \<open>The least of a list of frequencies, \<open>d\<close> for the empty list.\<close>

definition min_list_or :: "nat \<Rightarrow> nat list \<Rightarrow> nat" where
  "min_list_or d fs = (case fs of [] \<Rightarrow> d | f # r \<Rightarrow> fold min r f)"

text \<open>Modelled from the spec: the missing aging sweep: every frequency halved, every node
  relocated, \<open>minFrequency\<close> recomputed as the least frequency in use and the counter as the
  sum of the frequencies. The specification does not say in which order the sweep visits
  the nodes; it is the order of the index here.\<close>

definition aging_sweep :: "('k, 'v) LfuCore \<Rightarrow> ('k, 'v) LfuCore" where
  "aging_sweep s =
     (let idx = map (\<lambda>(key, val, f). (key, val, halve f)) (lfu_index s)
      in s\<lparr>lfu_index := idx,
           lfu_buckets := fold relocate idx (\<lambda>_. []),
           minFrequency := min_list_or (minFrequency s) (map node_frequency idx),
           totalFrequency := sum_list (map node_frequency idx)\<rparr>)"

text \<open>Modelled from the spec: the missing step \<open>then check the aging condition\<close> that ends
  promote and the insertion of a new node.\<close>

definition check_aging :: "('k, 'v) LfuCore \<Rightarrow> ('k, 'v) LfuCore" where
  "check_aging s = (if aging_due s then aging_sweep s else s)"

text \<open>Modelled from the spec: the missing promote step, up to and without its final check
  of the aging condition: unlink from the current bucket, advance \<open>minFrequency\<close> if that
  bucket was the minimum and is now empty, increment the frequency, append to the new
  bucket, add 1 to the counter. \<open>val\<close> is the value the node has afterwards.\<close>

definition promote_core :: "('k, 'v) LfuCore \<Rightarrow> 'k \<Rightarrow> 'v \<Rightarrow> nat \<Rightarrow> ('k, 'v) LfuCore" where
  "promote_core s key val f =
     (let b = bucket_unlink key (lfu_buckets s f);
          buckets1 = (lfu_buckets s)(f := b);
          minf = (if b = [] \<and> f = minFrequency s then f + 1 else minFrequency s);
          buckets2 = buckets1(f + 1 := bucket_append key (buckets1 (f + 1)))
      in s\<lparr>lfu_index := AList.update key (val, f + 1) (lfu_index s),
           lfu_buckets := buckets2,
           minFrequency := minf,
           totalFrequency := totalFrequency s + 1\<rparr>)"

text \<open>Modelled from the spec: the missing evict step: the first node of the bucket at
  \<open>minFrequency\<close> is unlinked, erased from the index, and its frequency subtracted from the
  counter.\<close>

definition evict :: "('k, 'v) LfuCore \<Rightarrow> ('k, 'v) LfuCore" where
  "evict s =
     (case firstNode (lfu_buckets s (minFrequency s)) of
        None \<Rightarrow> s
      | Some victim \<Rightarrow>
          (case map_of (lfu_index s) victim of
             None \<Rightarrow> s
           | Some (val, f) \<Rightarrow>
               s\<lparr>lfu_index := AList.delete victim (lfu_index s),
                 lfu_buckets := (lfu_buckets s)(minFrequency s :=
                    bucket_unlink victim (lfu_buckets s (minFrequency s))),
                 totalFrequency := totalFrequency s - f\<rparr>))"

text \<open>Modelled from the spec: the missing \<open>put\<close> on a cache with capacity, up to and without
  its final check of the aging condition: an existing key is overwritten and promoted; an
  absent key is inserted at frequency 1, after an eviction if the index is at capacity.\<close>

definition lfu_put_core :: "('k, 'v) LfuCore \<Rightarrow> 'k \<Rightarrow> 'v \<Rightarrow> ('k, 'v) LfuCore" where
  "lfu_put_core s key val =
     (case map_of (lfu_index s) key of
        Some (old, f) \<Rightarrow> promote_core s key val f
      | None \<Rightarrow>
          (let s1 = (if length (lfu_index s) = lfu_capacity s then evict s else s)
           in s1\<lparr>lfu_index := lfu_index s1 @ [(key, val, 1)],
                 lfu_buckets := (lfu_buckets s1)(1 := bucket_append key (lfu_buckets s1 1)),
                 minFrequency := 1,
                 totalFrequency := totalFrequency s1 + 1\<rparr>))"

text \<open>Modelled from the spec: the missing \<open>put(key, value)\<close>, a no-op at capacity 0.\<close>

definition lfu_put :: "('k, 'v) LfuCore \<Rightarrow> 'k \<Rightarrow> 'v \<Rightarrow> ('k, 'v) LfuCore" where
  "lfu_put s key val =
     (if lfu_capacity s = 0 then s else check_aging (lfu_put_core s key val))"

text \<open>Modelled from the spec: what the missing \<open>get\<close> does to the state, up to and without
  the final check of the aging condition: nothing for an absent key, promote for a present
  one.\<close>

definition lfu_get_core :: "('k, 'v) LfuCore \<Rightarrow> 'k \<Rightarrow> ('k, 'v) LfuCore" where
  "lfu_get_core s key =
     (case map_of (lfu_index s) key of
        None \<Rightarrow> s
      | Some (val, f) \<Rightarrow> promote_core s key val f)"

text \<open>Modelled from the spec: the missing \<open>get(key) -> (value, found)\<close>; \<open>None\<close> is
  not-found.\<close>

definition lfu_get :: "('k, 'v) LfuCore \<Rightarrow> 'k \<Rightarrow> 'v option \<times> ('k, 'v) LfuCore" where
  "lfu_get s key =
     (case map_of (lfu_index s) key of
        None \<Rightarrow> (None, s)
      | Some (val, f) \<Rightarrow> (Some val, check_aging (lfu_get_core s key)))"

text \<open>The frequency of a resident key, and residency.\<close>

definition frequency_of :: "('k, 'v) LfuCore \<Rightarrow> 'k \<Rightarrow> nat option" where
  "frequency_of s key = map_option snd (map_of (lfu_index s) key)"

definition lfu_resident :: "('k, 'v) LfuCore \<Rightarrow> 'k \<Rightarrow> bool" where
  "lfu_resident s key \<longleftrightarrow> map_of (lfu_index s) key \<noteq> None"

text \<open>A call, the state after it, and whether its check of the aging condition finds the
  condition true (so that the sweep fires).\<close>

fun lfu_step :: "('k, 'v) LfuCore \<Rightarrow> ('k, 'v) lru_op \<Rightarrow> ('k, 'v) LfuCore" where
  "lfu_step s (Put key val) = lfu_put s key val"
| "lfu_step s (Get key) = snd (lfu_get s key)"

fun sweep_fires :: "('k, 'v) LfuCore \<Rightarrow> ('k, 'v) lru_op \<Rightarrow> bool" where
  "sweep_fires s (Put key val) = (lfu_capacity s \<noteq> 0 \<and> aging_due (lfu_put_core s key val))"
| "sweep_fires s (Get key) = (lfu_resident s key \<and> aging_due (lfu_get_core s key))"

fun lfu_run :: "('k, 'v) LfuCore \<Rightarrow> ('k, 'v) lru_op list \<Rightarrow> ('k, 'v) LfuCore" where
  "lfu_run s [] = s"
| "lfu_run s (op # ops) = lfu_run (lfu_step s op) ops"

text \<open>\<open>quiet s ops\<close>: no aging sweep fires while \<open>ops\<close> run from \<open>s\<close>.
  \<open>stays_resident key s ops\<close>: \<open>key\<close> is in the index after each of the calls, so that it is
  neither evicted nor created anew.\<close>

fun quiet :: "('k, 'v) LfuCore \<Rightarrow> ('k, 'v) lru_op list \<Rightarrow> bool" where
  "quiet s [] = True"
| "quiet s (op # ops) = (\<not> sweep_fires s op \<and> quiet (lfu_step s op) ops)"

fun stays_resident :: "'k \<Rightarrow> ('k, 'v) LfuCore \<Rightarrow> ('k, 'v) lru_op list \<Rightarrow> bool" where
  "stays_resident key s [] = True"
| "stays_resident key s (op # ops) =
     (lfu_resident (lfu_step s op) key \<and> stays_resident key (lfu_step s op) ops)"

fun op_key :: "('k, 'v) lru_op \<Rightarrow> 'k" where
  "op_key (Put key val) = key"
| "op_key (Get key) = key"

text \<open>The number of calls on \<open>key\<close> in a sequence.\<close>

definition calls_on :: "'k \<Rightarrow> ('k, 'v) lru_op list \<Rightarrow> nat" where
  "calls_on key ops = length (filter (\<lambda>op. op_key op = key) ops)"

section \<open>The constructed cache\<close>

lemmas lru_defs = LruCache_new_def initializeList_def make_shared_def mkNode_def set_next_def set_prev_def
  setValue_def getKey_def getValue_def removeNode_def insertNode_def moveToMostRecent_def
  updateExistingNode_def evictLeastRecent_def map_size_def try_emplace_def addNewNode_def put_def get_def
  get_value_def remove_def

lemma LruCache_new_fields:
  "capacity (LruCache_new k0 v0 cap) = (if cap > 0 then nat cap else 0)"
  "nodeMap (LruCache_new k0 v0 cap) = Map.empty"
  "dummyHead (LruCache_new k0 v0 cap) = 0"
  "dummyTail (LruCache_new k0 v0 cap) = 1"
  "fresh (LruCache_new k0 v0 cap) = 2"
  by (simp_all add: LruCache_new_def initializeList_def make_shared_def set_next_def set_prev_def Let_def)

lemma LruCache_new_links:
  "node_next (heap (LruCache_new k0 v0 cap) 0) = Some 1"
  "node_prev (heap (LruCache_new k0 v0 cap) 1) = Some 0"
  by (simp_all add: LruCache_new_def initializeList_def make_shared_def set_next_def set_prev_def Let_def)

section \<open>The list in the store\<close>

subsection \<open>Linked chains\<close>

lemma in_set_tl: "a \<in> set (tl xs) \<Longrightarrow> a \<in> set xs"
  by (cases xs) auto

lemma linked_append:
  "linked h (xs @ y # ys) = (linked h (xs @ [y]) \<and> linked h (y # ys))"
  by (induction h xs rule: linked.induct) auto

lemma linked_cong:
  "\<forall>a\<in>set (butlast xs). node_next (h' a) = node_next (h a) \<Longrightarrow>
   \<forall>a\<in>set (tl xs). node_prev (h' a) = node_prev (h a) \<Longrightarrow>
   linked h' xs = linked h xs"
  by (induction h xs rule: linked.induct) auto

lemma linked_unlink:
  assumes d: "distinct (as @ p # x # n # bs)" and l: "linked h (as @ p # x # n # bs)"
    and hn: "\<And>a. a \<noteq> x \<Longrightarrow> a \<noteq> p \<Longrightarrow> node_next (h' a) = node_next (h a)"
    and hp: "\<And>a. a \<noteq> x \<Longrightarrow> a \<noteq> n \<Longrightarrow> node_prev (h' a) = node_prev (h a)"
    and pn: "node_next (h' p) = Some n" "node_prev (h' n) = Some p"
  shows "linked h' (as @ p # n # bs)"
proof -
  from l have 1: "linked h (as @ [p])" and 2: "linked h (n # bs)"
    using linked_append[of h as p "x # n # bs"] linked_append[of h "[p, x]" n bs] by auto
  have "linked h' (as @ [p]) = linked h (as @ [p])"
  proof (rule linked_cong; rule ballI)
    fix a assume "a \<in> set (butlast (as @ [p]))"
    then have "a \<noteq> x" "a \<noteq> p" using d by auto
    then show "node_next (h' a) = node_next (h a)" by (rule hn)
  next
    fix a assume "a \<in> set (tl (as @ [p]))"
    then have "a \<in> set (as @ [p])" by (rule in_set_tl)
    then have "a \<noteq> x" "a \<noteq> n" using d by auto
    then show "node_prev (h' a) = node_prev (h a)" by (rule hp)
  qed
  with 1 have 3: "linked h' (as @ [p])" by simp
  have "linked h' (n # bs) = linked h (n # bs)"
  proof (rule linked_cong; rule ballI)
    fix a assume "a \<in> set (butlast (n # bs))"
    then have "a \<in> set (n # bs)" by (rule in_set_butlastD)
    then have "a \<noteq> x" "a \<noteq> p" using d by auto
    then show "node_next (h' a) = node_next (h a)" by (rule hn)
  next
    fix a assume "a \<in> set (tl (n # bs))"
    then have "a \<noteq> x" "a \<noteq> n" using d by auto
    then show "node_prev (h' a) = node_prev (h a)" by (rule hp)
  qed
  with 2 have 4: "linked h' (n # bs)" by simp
  from 4 pn have "linked h' (p # n # bs)" by simp
  with 3 show ?thesis by (simp add: linked_append[of h' as p "n # bs"])
qed

lemma linked_insert:
  assumes d: "distinct (as @ [p, t])" and x: "x \<notin> set (as @ [p, t])" and l: "linked h (as @ [p, t])"
    and hn: "\<And>a. a \<noteq> x \<Longrightarrow> a \<noteq> p \<Longrightarrow> node_next (h' a) = node_next (h a)"
    and hp: "\<And>a. a \<noteq> x \<Longrightarrow> a \<noteq> t \<Longrightarrow> node_prev (h' a) = node_prev (h a)"
    and px: "node_next (h' p) = Some x" "node_prev (h' x) = Some p"
    and xt: "node_next (h' x) = Some t" "node_prev (h' t) = Some x"
  shows "linked h' (as @ [p, x, t])"
proof -
  from l have 1: "linked h (as @ [p])"
    using linked_append[of h as p "[t]"] by simp
  have "linked h' (as @ [p]) = linked h (as @ [p])"
  proof (rule linked_cong; rule ballI)
    fix a assume "a \<in> set (butlast (as @ [p]))"
    then have "a \<noteq> x" "a \<noteq> p" using d x by auto
    then show "node_next (h' a) = node_next (h a)" by (rule hn)
  next
    fix a assume "a \<in> set (tl (as @ [p]))"
    then have "a \<in> set (as @ [p])" by (rule in_set_tl)
    then have "a \<noteq> x" "a \<noteq> t" using d x by auto
    then show "node_prev (h' a) = node_prev (h a)" by (rule hp)
  qed
  with 1 have 3: "linked h' (as @ [p])" by simp
  have "linked h' [p, x, t]" using px xt by simp
  with 3 show ?thesis by (simp add: linked_append[of h' as p "[x, t]"])
qed

lemma removeNode_same_data: "same_data s (removeNode s x)"
  by (auto simp: removeNode_def same_data_def set_next_def set_prev_def Let_def split: option.splits)

lemma insertNode_same_data: "insertNode s x = Some s' \<Longrightarrow> same_data s s'"
  by (auto simp: insertNode_def same_data_def set_next_def set_prev_def Let_def split: option.splits)

lemma chain_split:
  assumes "x \<in> set ns"
  obtains as p n bs where "chain s ns = as @ p # x # n # bs" "chain s (remove1 x ns) = as @ p # n # bs"
proof -
  from assms obtain pre post where ns: "ns = pre @ x # post" "x \<notin> set pre"
    by (meson split_list_first)
  obtain as p where ap: "dummyHead s # pre = as @ [p]"
    by (metis append_butlast_last_id list.distinct(1))
  obtain n bs where nb: "post @ [dummyTail s] = n # bs"
    by (cases post) auto
  have r: "remove1 x ns = pre @ post" using ns by (simp add: remove1_append)
  have "chain s ns = as @ p # x # n # bs"
    using ns ap nb unfolding chain_def by (metis append.assoc append_Cons append_Nil)
  moreover have "chain s (remove1 x ns) = as @ p # n # bs"
    using r ap nb unfolding chain_def by (metis append.assoc append_Cons append_Nil)
  ultimately show ?thesis using that by blast
qed

lemma removeNode_dll:
  assumes "dll s ns" "x \<in> set ns"
  shows "dll (removeNode s x) (remove1 x ns)"
proof -
  obtain as p n bs where c: "chain s ns = as @ p # x # n # bs"
    and c': "chain s (remove1 x ns) = as @ p # n # bs"
    using chain_split[OF assms(2)] by metis
  from assms(1) have d: "distinct (as @ p # x # n # bs)" and l: "linked (heap s) (as @ p # x # n # bs)"
    and b: "\<forall>a\<in>set (as @ p # x # n # bs). a < fresh s"
    by (simp_all add: dll_def c)
  from l have px: "node_prev (heap s x) = Some p" "node_next (heap s x) = Some n"
    using linked_append[of "heap s" as p "x # n # bs"] by auto
  let ?s' = "removeNode s x"
  have sd: "same_data s ?s'" by (rule removeNode_same_data)
  have ch: "chain ?s' (remove1 x ns) = as @ p # n # bs"
    using c' sd by (simp add: chain_def same_data_def)
  have "linked (heap ?s') (as @ p # n # bs)"
    using d l by (rule linked_unlink) (use d in \<open>simp_all add: removeNode_def px set_next_def set_prev_def Let_def\<close>)
  moreover have "distinct (as @ p # n # bs)" using d by auto
  moreover have "\<forall>a\<in>set (as @ p # n # bs). a < fresh ?s'" using b sd by (auto simp: same_data_def)
  ultimately show ?thesis by (simp add: dll_def ch)
qed

lemma removeNode_unlinked:
  assumes "dll s ns" "x \<in> set ns"
  shows "x \<notin> set (chain (removeNode s x) (remove1 x ns))"
  using assms removeNode_same_data[of s x]
  by (auto simp: dll_def chain_def same_data_def)

lemma insertNode_dll:
  assumes "dll s ns" "x \<notin> set (chain s ns)" "x < fresh s"
  shows "\<exists>s'. insertNode s x = Some s' \<and> dll s' (ns @ [x])"
proof -
  obtain as p where ap: "dummyHead s # ns = as @ [p]"
    by (metis append_butlast_last_id list.distinct(1))
  let ?t = "dummyTail s"
  have c: "chain s ns = as @ [p, ?t]" using ap by (simp add: chain_def)
  from assms(1) have d: "distinct (as @ [p, ?t])" and l: "linked (heap s) (as @ [p, ?t])"
    and b: "\<forall>a\<in>set (as @ [p, ?t]). a < fresh s"
    by (simp_all add: dll_def c)
  from l have pt: "node_prev (heap s ?t) = Some p"
    using linked_append[of "heap s" as p "[?t]"] by auto
  then obtain s' where s': "insertNode s x = Some s'"
    by (simp add: insertNode_def Let_def)
  have sd: "same_data s s'" using s' by (rule insertNode_same_data)
  have ch: "chain s' (ns @ [x]) = as @ [p, x, ?t]"
    using ap sd by (simp add: chain_def same_data_def)
  have x: "x \<notin> set (as @ [p, ?t])" using assms(2) c by simp
  have "linked (heap s') (as @ [p, x, ?t])"
    using d x l
    by (rule linked_insert) (use s' x d in \<open>auto simp: insertNode_def pt set_next_def set_prev_def Let_def\<close>)
  moreover have "distinct (as @ [p, x, ?t])" using d x by auto
  moreover have "\<forall>a\<in>set (as @ [p, x, ?t]). a < fresh s'" using b sd assms(3) by (auto simp: same_data_def)
  ultimately show ?thesis using s' by (simp add: dll_def ch)
qed

subsection \<open>The walk, the index\<close>

lemma walk_linked:
  "linked h (p # xs @ [t]) \<Longrightarrow> distinct (p # xs @ [t]) \<Longrightarrow> length xs < n \<Longrightarrow>
   walk n h (node_next (h p)) t = xs"
proof (induction xs arbitrary: p n)
  case Nil
  then obtain m where "n = Suc m" by (cases n) auto
  with Nil show ?case by simp
next
  case (Cons x xs)
  then obtain m where n: "n = Suc m" by (cases n) auto
  from Cons.prems have "node_next (h p) = Some x" "x \<noteq> t" "linked h (x # xs @ [t])"
    "distinct (x # xs @ [t])" "length xs < m"
    using n by auto
  with Cons.IH[of x m] show ?case using n by simp
qed

lemma distinct_bounded_length:
  assumes "distinct xs" "\<forall>a\<in>set xs. a < (n::nat)"
  shows "length xs \<le> n"
proof -
  have "set xs \<subseteq> {..<n}" using assms(2) by auto
  then have "card (set xs) \<le> card {..<n}" by (intro card_mono) auto
  then show ?thesis using assms(1) by (simp add: distinct_card)
qed

lemma dll_nodes:
  assumes "dll s ns"
  shows "lru_nodes s = ns"
proof -
  from assms have d: "distinct (dummyHead s # ns @ [dummyTail s])"
    and b: "\<forall>a\<in>set (dummyHead s # ns @ [dummyTail s]). a < fresh s"
    and l: "linked (heap s) (dummyHead s # ns @ [dummyTail s])"
    by (simp_all add: dll_def chain_def)
  from distinct_bounded_length[OF d b] have "length ns < fresh s" by simp
  with walk_linked[OF l d] show ?thesis by (simp add: lru_nodes_def)
qed

lemma dll_ends:
  assumes "dll s ns" "ns \<noteq> []"
  shows "node_next (heap s (dummyHead s)) = Some (hd ns)"
    and "node_prev (heap s (dummyTail s)) = Some (last ns)"
    and "node_next (heap s (last ns)) = Some (dummyTail s)"
    and "hd ns \<noteq> dummyTail s"
proof -
  from assms(2) obtain x xs where ns: "ns = x # xs" by (cases ns) auto
  from assms(2) obtain ys y where ns': "ns = ys @ [y]" by (metis append_butlast_last_id)
  from assms(1) have l: "linked (heap s) (dummyHead s # ns @ [dummyTail s])"
    and d: "distinct (dummyHead s # ns @ [dummyTail s])"
    by (simp_all add: dll_def chain_def)
  from l show "node_next (heap s (dummyHead s)) = Some (hd ns)" by (simp add: ns)
  from d show "hd ns \<noteq> dummyTail s" by (auto simp: ns)
  from l have "linked (heap s) ((dummyHead s # ys) @ y # [dummyTail s])" by (simp add: ns')
  then have "linked (heap s) [y, dummyTail s]"
    using linked_append[of "heap s" "dummyHead s # ys" y "[dummyTail s]"] by simp
  then show "node_prev (heap s (dummyTail s)) = Some (last ns)"
    and "node_next (heap s (last ns)) = Some (dummyTail s)" by (simp_all add: ns')
qed

lemma dll_empty_next:
  assumes "dll s []"
  shows "node_next (heap s (dummyHead s)) = Some (dummyTail s)"
  using assms by (simp add: dll_def chain_def)

lemma indexed_dom:
  assumes "indexed s ns"
  shows "dom (nodeMap s) = set (map (getKey s) ns)"
  using assms by (auto simp: indexed_def dom_def)

lemma indexed_size:
  assumes "indexed s ns"
  shows "map_size (nodeMap s) = length ns"
proof -
  from assms have "distinct (map (getKey s) ns)" by (simp add: indexed_def)
  then have "card (set (map (getKey s) ns)) = length ns"
    using distinct_card[of "map (getKey s) ns"] by simp
  then show ?thesis using indexed_dom[OF assms] by (simp add: map_size_def)
qed

lemma indexed_lookup:
  assumes "indexed s ns" "nodeMap s key = Some a"
  shows "a \<in> set ns" "getKey s a = key"
  using assms by (auto simp: indexed_def)

lemma indexed_None:
  assumes "indexed s ns" "nodeMap s key = None" "a \<in> set ns"
  shows "getKey s a \<noteq> key"
proof -
  from assms(1,3) have "nodeMap s (getKey s a) = Some a" by (simp add: indexed_def)
  with assms(2) show ?thesis by auto
qed

lemma same_data_getKey: "same_data s s' \<Longrightarrow> getKey s' = getKey s"
  by (auto simp: same_data_def getKey_def)

lemma same_data_getValue: "same_data s s' \<Longrightarrow> getValue s' = getValue s"
  by (auto simp: same_data_def getValue_def)

lemma indexed_permute:
  assumes "indexed s ns" "same_data s s'" "set ns' = set ns" "distinct ns'"
  shows "indexed s' ns'"
proof -
  from assms(1) have "inj_on (getKey s) (set ns)" by (simp add: indexed_def distinct_map)
  with assms(3,4) have "distinct (map (getKey s) ns')" by (simp add: distinct_map)
  moreover have "nodeMap s' = nodeMap s" "getKey s' = getKey s"
    using assms(2) same_data_getKey[OF assms(2)] by (auto simp: same_data_def)
  ultimately show ?thesis using assms(1,3) by (simp add: indexed_def)
qed

lemma dll_distinct: "dll s ns \<Longrightarrow> distinct ns"
  by (simp add: dll_def chain_def)

lemma same_data_trans: "same_data s s1 \<Longrightarrow> same_data s1 s2 \<Longrightarrow> same_data s s2"
  by (simp add: same_data_def)

lemma moveToMostRecent_inv:
  assumes "dll s ns" "indexed s ns" "x \<in> set ns"
  shows "\<exists>s'. moveToMostRecent s x = Some s' \<and> dll s' (remove1 x ns @ [x]) \<and>
           indexed s' (remove1 x ns @ [x]) \<and> same_data s s'"
proof -
  let ?s1 = "removeNode s x"
  have 1: "dll ?s1 (remove1 x ns)" using assms(1,3) by (rule removeNode_dll)
  have 2: "x \<notin> set (chain ?s1 (remove1 x ns))" using assms(1,3) by (rule removeNode_unlinked)
  have sd1: "same_data s ?s1" by (rule removeNode_same_data)
  have "x < fresh s" using assms(1,3) by (simp add: dll_def chain_def)
  then have 3: "x < fresh ?s1" using sd1 by (simp add: same_data_def)
  from insertNode_dll[OF 1 2 3] obtain s' where s': "insertNode ?s1 x = Some s'"
    and 4: "dll s' (remove1 x ns @ [x])" by blast
  have sd: "same_data s s'" using sd1 insertNode_same_data[OF s'] by (rule same_data_trans)
  have "set (remove1 x ns @ [x]) = set ns" using assms(3) dll_distinct[OF assms(1)] by auto
  then have "indexed s' (remove1 x ns @ [x])"
    using indexed_permute[OF assms(2) sd] dll_distinct[OF 4] by blast
  with s' 4 sd show ?thesis by (simp add: moveToMostRecent_def)
qed

subsection \<open>The private operations keep the representation\<close>

lemma dll_heap_cong:
  assumes "dll s ns" "dummyHead s' = dummyHead s" "dummyTail s' = dummyTail s" "fresh s \<le> fresh s'"
    and "\<And>a. a \<in> set (chain s ns) \<Longrightarrow> node_next (heap s' a) = node_next (heap s a) \<and>
            node_prev (heap s' a) = node_prev (heap s a)"
  shows "dll s' ns"
proof -
  have c: "chain s' ns = chain s ns" using assms(2,3) by (simp add: chain_def)
  have "linked (heap s') (chain s ns) = linked (heap s) (chain s ns)"
  proof (rule linked_cong; rule ballI)
    fix a assume "a \<in> set (butlast (chain s ns))"
    then have "a \<in> set (chain s ns)" by (rule in_set_butlastD)
    then show "node_next (heap s' a) = node_next (heap s a)" using assms(5) by simp
  next
    fix a assume "a \<in> set (tl (chain s ns))"
    then have "a \<in> set (chain s ns)" by (rule in_set_tl)
    then show "node_prev (heap s' a) = node_prev (heap s a)" using assms(5) by simp
  qed
  then show ?thesis using assms(1,4) unfolding dll_def c by auto
qed

lemma setValue_fields:
  "capacity (setValue a v s) = capacity s" "nodeMap (setValue a v s) = nodeMap s"
  "dummyHead (setValue a v s) = dummyHead s" "dummyTail (setValue a v s) = dummyTail s"
  "fresh (setValue a v s) = fresh s"
  "getKey (setValue a v s) = getKey s" "getValue (setValue a v s) = (getValue s)(a := v)"
  "node_next (heap (setValue a v s) b) = node_next (heap s b)"
  "node_prev (heap (setValue a v s) b) = node_prev (heap s b)"
  by (auto simp: setValue_def getKey_def getValue_def)

lemma setValue_dll: "dll s ns \<Longrightarrow> dll (setValue a v s) ns"
  by (rule dll_heap_cong) (simp_all add: setValue_fields)

lemma setValue_indexed: "indexed s ns \<Longrightarrow> indexed (setValue a v s) ns"
  by (simp add: indexed_def setValue_fields)

lemma same_data_fields:
  assumes "same_data s s'"
  shows "capacity s' = capacity s" "nodeMap s' = nodeMap s" "dummyHead s' = dummyHead s"
    "dummyTail s' = dummyTail s" "fresh s' = fresh s" "getKey s' = getKey s" "getValue s' = getValue s"
  using assms same_data_getKey[OF assms] same_data_getValue[OF assms] by (simp_all add: same_data_def)

lemma updateExistingNode_inv:
  assumes "dll s ns" "indexed s ns" "x \<in> set ns"
  shows "\<exists>s'. updateExistingNode s x val = Some s' \<and> dll s' (remove1 x ns @ [x]) \<and>
           indexed s' (remove1 x ns @ [x]) \<and> capacity s' = capacity s \<and> nodeMap s' = nodeMap s \<and>
           getKey s' = getKey s \<and> getValue s' = (getValue s)(x := val) \<and>
           dummyHead s' = dummyHead s \<and> dummyTail s' = dummyTail s"
proof -
  let ?s0 = "setValue x val s"
  from moveToMostRecent_inv[OF setValue_dll[OF assms(1), of x val] setValue_indexed[OF assms(2), of x val] assms(3)]
  obtain s' where s': "moveToMostRecent ?s0 x = Some s'" "dll s' (remove1 x ns @ [x])"
    "indexed s' (remove1 x ns @ [x])" "same_data ?s0 s'" by blast
  from same_data_fields[OF s'(4)] s'(1,2,3) show ?thesis
    by (simp add: updateExistingNode_def setValue_fields)
qed

lemma evictLeastRecent_empty:
  assumes "dll s []"
  shows "evictLeastRecent s = s"
  using dll_empty_next[OF assms] by (simp add: evictLeastRecent_def)

lemma evictLeastRecent_inv:
  assumes "dll s ns" "indexed s ns" "ns \<noteq> []"
  shows "dll (evictLeastRecent s) (tl ns)" "indexed (evictLeastRecent s) (tl ns)"
    "capacity (evictLeastRecent s) = capacity s" "fresh (evictLeastRecent s) = fresh s"
    "getKey (evictLeastRecent s) = getKey s" "getValue (evictLeastRecent s) = getValue s"
    "nodeMap (evictLeastRecent s) = (nodeMap s)(getKey s (hd ns) := None)"
    "dummyHead (evictLeastRecent s) = dummyHead s" "dummyTail (evictLeastRecent s) = dummyTail s"
proof -
  let ?x = "hd ns"
  let ?s1 = "removeNode s ?x"
  have x: "?x \<in> set ns" using assms(3) by simp
  have sd: "same_data s ?s1" by (rule removeNode_same_data)
  note f = same_data_fields[OF sd]
  have e: "evictLeastRecent s = ?s1\<lparr>nodeMap := (nodeMap s)(getKey s ?x := None)\<rparr>"
    using dll_ends(1,4)[OF assms(1,3)] f by (simp add: evictLeastRecent_def Let_def)
  have r: "remove1 ?x ns = tl ns" using assms(3) by (cases ns) auto
  have 1: "dll ?s1 (tl ns)" using removeNode_dll[OF assms(1) x] r by simp
  show "dll (evictLeastRecent s) (tl ns)"
    using 1 unfolding e by (rule dll_heap_cong) simp_all
  show "capacity (evictLeastRecent s) = capacity s" "fresh (evictLeastRecent s) = fresh s"
    "dummyHead (evictLeastRecent s) = dummyHead s" "dummyTail (evictLeastRecent s) = dummyTail s"
    "nodeMap (evictLeastRecent s) = (nodeMap s)(getKey s (hd ns) := None)"
    using f by (simp_all add: e)
  show k: "getKey (evictLeastRecent s) = getKey s" and "getValue (evictLeastRecent s) = getValue s"
    using f(6,7) by (simp_all add: e getKey_def getValue_def fun_eq_iff)
  from assms(3) obtain y ys where ns: "ns = y # ys" by (cases ns) auto
  from assms(2) have d: "distinct (map (getKey s) (y # ys))"
    and m: "\<And>key a. nodeMap s key = Some a \<longleftrightarrow> a \<in> set (y # ys) \<and> getKey s a = key"
    by (simp_all add: indexed_def ns)
  have dn: "distinct (y # ys)" using dll_distinct[OF assms(1)] by (simp add: ns)
  have "\<And>key a. ((nodeMap s)(getKey s y := None)) key = Some a \<longleftrightarrow> a \<in> set ys \<and> getKey s a = key"
    using d dn m by (auto simp: image_iff)
  then show "indexed (evictLeastRecent s) (tl ns)"
    using d unfolding indexed_def k by (simp add: e ns)
qed

lemma make_shared_fields:
  "fst (make_shared s n) = fresh s"
  "capacity (snd (make_shared s n)) = capacity s" "nodeMap (snd (make_shared s n)) = nodeMap s"
  "dummyHead (snd (make_shared s n)) = dummyHead s" "dummyTail (snd (make_shared s n)) = dummyTail s"
  "fresh (snd (make_shared s n)) = Suc (fresh s)"
  "heap (snd (make_shared s n)) = (heap s)(fresh s := n)"
  by (simp_all add: make_shared_def)

lemma make_shared_dll:
  assumes "dll s ns"
  shows "dll (snd (make_shared s n)) ns" "fresh s \<notin> set (chain (snd (make_shared s n)) ns)"
proof -
  have b: "\<And>a. a \<in> set (chain s ns) \<Longrightarrow> a \<noteq> fresh s" using assms by (auto simp: dll_def)
  show "dll (snd (make_shared s n)) ns"
    using assms by (rule dll_heap_cong) (use b in \<open>auto simp: make_shared_fields\<close>)
  show "fresh s \<notin> set (chain (snd (make_shared s n)) ns)"
    using b by (auto simp: chain_def make_shared_fields)
qed

lemma insert_indexed:
  assumes i: "indexed s1 ns0" and none: "nodeMap s1 key = None" and new: "new \<notin> set ns0"
    and k: "\<And>a. a \<in> set ns0 \<Longrightarrow> getKey s' a = getKey s1 a" "getKey s' new = key"
    and m: "nodeMap s' = (nodeMap s1)(key \<mapsto> new)"
  shows "indexed s' (ns0 @ [new])"
proof -
  have ne: "\<And>a. a \<in> set ns0 \<Longrightarrow> getKey s1 a \<noteq> key" using indexed_None[OF i none] by simp
  have meq: "map (getKey s') ns0 = map (getKey s1) ns0" using k(1) by simp
  have d0: "distinct (map (getKey s1) ns0)" using i by (simp add: indexed_def)
  have "key \<notin> set (map (getKey s1) ns0)" using ne by auto
  then have d: "distinct (map (getKey s') (ns0 @ [new]))"
    by (simp add: meq k(2) d0)
  have "\<And>key' a. nodeMap s' key' = Some a \<longleftrightarrow> a \<in> set (ns0 @ [new]) \<and> getKey s' a = key'"
  proof -
    fix key' a
    from i have *: "nodeMap s1 key' = Some a \<longleftrightarrow> a \<in> set ns0 \<and> getKey s1 a = key'"
      by (simp add: indexed_def)
    show "nodeMap s' key' = Some a \<longleftrightarrow> a \<in> set (ns0 @ [new]) \<and> getKey s' a = key'"
    proof (cases "key' = key")
      case True
      then show ?thesis using m k ne new by auto
    next
      case False
      then show ?thesis using m k new * by auto
    qed
  qed
  with d show ?thesis by (simp add: indexed_def)
qed

lemma addNewNode_step:
  assumes d: "dll s1 ns0" and i: "indexed s1 ns0" and none: "nodeMap s1 key = None"
  shows "\<exists>s'. (let (newNode, s2) = make_shared s1 (mkNode key val)
               in insertNode s2 newNode \<bind>
                  (\<lambda>s3. Some (s3\<lparr>nodeMap := try_emplace (nodeMap s3) key newNode\<rparr>))) = Some s' \<and>
           dll s' (ns0 @ [fresh s1]) \<and> indexed s' (ns0 @ [fresh s1]) \<and> capacity s' = capacity s1 \<and>
           (\<forall>a\<in>set ns0. getKey s' a = getKey s1 a \<and> getValue s' a = getValue s1 a) \<and>
           getKey s' (fresh s1) = key \<and> getValue s' (fresh s1) = val \<and> fresh s1 \<notin> set ns0 \<and>
           dummyHead s' = dummyHead s1 \<and> dummyTail s' = dummyTail s1 \<and>
           nodeMap s' = (nodeMap s1)(key \<mapsto> fresh s1)"
proof -
  let ?new = "fresh s1"
  let ?s2 = "snd (make_shared s1 (mkNode key val))"
  note f2 = make_shared_fields[of s1 "mkNode key val"]
  have d2: "dll ?s2 ns0" and n2: "?new \<notin> set (chain ?s2 ns0)"
    using make_shared_dll[OF d] by auto
  have "?new < fresh ?s2" by (simp add: f2)
  from insertNode_dll[OF d2 n2 this] obtain s3 where s3: "insertNode ?s2 ?new = Some s3"
    and d3: "dll s3 (ns0 @ [?new])" by blast
  have sd: "same_data ?s2 s3" using s3 by (rule insertNode_same_data)
  note f3 = same_data_fields[OF sd]
  let ?s' = "s3\<lparr>nodeMap := (nodeMap s1)(key \<mapsto> ?new)\<rparr>"
  have e: "(let (newNode, s2) = make_shared s1 (mkNode key val)
               in insertNode s2 newNode \<bind>
                  (\<lambda>s3. Some (s3\<lparr>nodeMap := try_emplace (nodeMap s3) key newNode\<rparr>))) = Some ?s'"
    using s3 f3(2) f2 none by (simp add: split_beta try_emplace_def)
  have new: "?new \<notin> set ns0" using n2 by (simp add: chain_def)
  have gk: "getKey ?s' = (getKey s1)(?new := key)" and gv: "getValue ?s' = (getValue s1)(?new := val)"
    using f3(6,7) f2(7) by (auto simp: getKey_def getValue_def fun_eq_iff mkNode_def)
  have d': "dll ?s' (ns0 @ [?new])" using d3 by (rule dll_heap_cong) simp_all
  have i': "indexed ?s' (ns0 @ [?new])"
    using i none new by (rule insert_indexed) (use new in \<open>auto simp: gk\<close>)
  show ?thesis
    unfolding e using d' i' new f3 f2 by (auto simp: gk gv)
qed

lemma addNewNode_inv:
  assumes d: "dll s ns" and i: "indexed s ns" and none: "nodeMap s key = None"
  defines "ns0 \<equiv> (if capacity s \<le> length ns then tl ns else ns)"
  shows "\<exists>s'. addNewNode s key val = Some s' \<and>
           dll s' (ns0 @ [fresh s]) \<and> indexed s' (ns0 @ [fresh s]) \<and> capacity s' = capacity s \<and>
           (\<forall>a\<in>set ns0. getKey s' a = getKey s a \<and> getValue s' a = getValue s a) \<and>
           getKey s' (fresh s) = key \<and> getValue s' (fresh s) = val \<and> fresh s \<notin> set ns0 \<and>
           dummyHead s' = dummyHead s \<and> dummyTail s' = dummyTail s \<and>
           dom (nodeMap s') = insert key (getKey s ` set ns0)"
proof -
  define s1 where "s1 = (if map_size (nodeMap s) \<ge> capacity s then evictLeastRecent s else s)"
  have sz: "map_size (nodeMap s) = length ns" using i by (rule indexed_size)
  have s1c: "dll s1 ns0 \<and> indexed s1 ns0 \<and> nodeMap s1 key = None \<and> capacity s1 = capacity s \<and>
      fresh s1 = fresh s \<and> getKey s1 = getKey s \<and> getValue s1 = getValue s \<and>
      dummyHead s1 = dummyHead s \<and> dummyTail s1 = dummyTail s"
  proof (cases "capacity s \<le> length ns")
    case False
    then show ?thesis using d i none sz by (simp add: ns0_def s1_def)
  next
    case True
    show ?thesis
    proof (cases "ns = []")
      case True
      then show ?thesis using d i none sz evictLeastRecent_empty[of s] by (simp add: ns0_def s1_def)
    next
      case False
      from evictLeastRecent_inv[OF d i False] none True sz show ?thesis
        by (simp add: ns0_def s1_def)
    qed
  qed
  then have s1: "dll s1 ns0" "indexed s1 ns0" "nodeMap s1 key = None" "capacity s1 = capacity s"
      "fresh s1 = fresh s" "getKey s1 = getKey s" "getValue s1 = getValue s"
      "dummyHead s1 = dummyHead s" "dummyTail s1 = dummyTail s"
    by simp_all
  from addNewNode_step[OF s1(1,2,3), of val]
  obtain s' where s': "(let (newNode, s2) = make_shared s1 (mkNode key val)
               in insertNode s2 newNode \<bind>
                  (\<lambda>s3. Some (s3\<lparr>nodeMap := try_emplace (nodeMap s3) key newNode\<rparr>))) = Some s'"
    and r: "dll s' (ns0 @ [fresh s1])" "indexed s' (ns0 @ [fresh s1])" "capacity s' = capacity s1"
      "\<forall>a\<in>set ns0. getKey s' a = getKey s1 a \<and> getValue s' a = getValue s1 a"
      "getKey s' (fresh s1) = key" "getValue s' (fresh s1) = val" "fresh s1 \<notin> set ns0"
      "dummyHead s' = dummyHead s1" "dummyTail s' = dummyTail s1"
    by blast
  have a: "addNewNode s key val = Some s'"
    using s' unfolding addNewNode_def Let_def s1_def by simp
  have "dom (nodeMap s') = set (map (getKey s') (ns0 @ [fresh s]))"
    using indexed_dom[OF r(2)] s1 by simp
  also have "\<dots> = insert key (getKey s ` set ns0)"
    using r(4,5) s1 by auto
  finally show ?thesis using a r s1 by simp
qed

subsection \<open>The list as a list of entries\<close>

lemma lru_invI:
  assumes "dll s ns" "indexed s ns" "length ns \<le> capacity s"
  shows "lru_inv s" "lru_nodes s = ns"
  using assms dll_nodes[OF assms(1)] by (simp_all add: lru_inv_def)

lemma lru_invD:
  assumes "lru_inv s"
  shows "dll s (lru_nodes s)" "indexed s (lru_nodes s)" "length (lru_nodes s) \<le> capacity s"
  using assms by (simp_all add: lru_inv_def)

lemma lru_keys_entries: "lru_keys s = map fst (entries s)"
  by (simp add: lru_keys_def entries_def comp_def)

lemma length_entries: "length (entries s) = length (lru_nodes s)"
  by (simp add: entries_def)

lemma lru_inv_index:
  assumes "lru_inv s"
  shows "dom (nodeMap s) = set (lru_keys s)" "distinct (lru_keys s)"
    "map_size (nodeMap s) = length (entries s)" "length (entries s) \<le> capacity s"
  using lru_invD[OF assms] indexed_dom[of s "lru_nodes s"] indexed_size[of s "lru_nodes s"]
  by (simp_all add: lru_keys_def indexed_def length_entries)

lemma moved_entries:
  assumes i: "indexed s ns" and d: "distinct ns" and x: "x \<in> set ns"
  shows "map (\<lambda>a. (getKey s a, g a)) (remove1 x ns) =
         filter (\<lambda>e. fst e \<noteq> getKey s x) (map (\<lambda>a. (getKey s a, g a)) ns)"
proof -
  from i have inj: "inj_on (getKey s) (set ns)" by (simp add: indexed_def distinct_map)
  have "remove1 x ns = filter (\<lambda>a. a \<noteq> x) ns"
    using d by (simp add: distinct_remove1_removeAll removeAll_filter_not_eq) metis
  also have "\<dots> = filter (\<lambda>a. getKey s a \<noteq> getKey s x) ns"
    using inj x by (intro filter_cong) (auto dest: inj_onD)
  finally show ?thesis by (simp add: filter_map comp_def)
qed

lemma map_of_entries:
  assumes "lru_inv s"
  shows "map_of (entries s) key = map_option (getValue s) (nodeMap s key)"
proof (cases "nodeMap s key")
  case None
  then have "key \<notin> dom (nodeMap s)" by auto
  then have "key \<notin> fst ` set (entries s)"
    using lru_inv_index(1)[OF assms] by (simp add: lru_keys_entries)
  then show ?thesis using None by (simp add: map_of_eq_None_iff)
next
  case (Some a)
  from lru_invD(2)[OF assms] Some have "a \<in> set (lru_nodes s)" "getKey s a = key"
    by (auto simp: indexed_def)
  then have "(key, getValue s a) \<in> set (entries s)" by (auto simp: entries_def)
  moreover have "distinct (map fst (entries s))"
    using lru_inv_index(2)[OF assms] by (simp add: lru_keys_entries)
  ultimately show ?thesis using Some by simp
qed

lemma relinked_entries:
  assumes inv: "lru_inv s" and x: "nodeMap s key = Some x"
    and d': "dll s' (remove1 x (lru_nodes s) @ [x])" and i': "indexed s' (remove1 x (lru_nodes s) @ [x])"
    and c: "capacity s' = capacity s" and k: "getKey s' = getKey s"
    and v: "getValue s' = (getValue s)(x := val)"
  shows "lru_inv s'" "entries s' = filter (\<lambda>e. fst e \<noteq> key) (entries s) @ [(key, val)]"
    "node_prev (heap s' (dummyTail s')) = Some x" "node_next (heap s' x) = Some (dummyTail s')"
proof -
  let ?ns = "lru_nodes s"
  note D = lru_invD[OF inv]
  have xin: "x \<in> set ?ns" and kx: "getKey s x = key" using indexed_lookup[OF D(2) x] by auto
  have len: "length (remove1 x ?ns @ [x]) \<le> capacity s'"
    using D(3) xin c length_pos_if_in_set[OF xin] by (simp add: length_remove1)
  show "lru_inv s'" using lru_invI(1)[OF d' i' len] .
  have n': "lru_nodes s' = remove1 x ?ns @ [x]" using lru_invI(2)[OF d' i' len] .
  have nx: "x \<notin> set (remove1 x ?ns)" using dll_distinct[OF D(1)] by simp
  have "map (\<lambda>a. (getKey s a, ((getValue s)(x := val)) a)) (remove1 x ?ns) =
        map (\<lambda>a. (getKey s a, getValue s a)) (remove1 x ?ns)"
    using nx by (intro map_cong) auto
  also have "\<dots> = filter (\<lambda>e. fst e \<noteq> getKey s x) (map (\<lambda>a. (getKey s a, getValue s a)) ?ns)"
    using D(2) dll_distinct[OF D(1)] xin by (rule moved_entries)
  finally show "entries s' = filter (\<lambda>e. fst e \<noteq> key) (entries s) @ [(key, val)]"
    by (simp add: entries_def n' k v kx)
  show "node_prev (heap s' (dummyTail s')) = Some x" "node_next (heap s' x) = Some (dummyTail s')"
    using dll_ends(2,3)[OF d'] by simp_all
qed

subsection \<open>The public operations on the entries\<close>

lemma put_existing:
  assumes inv: "lru_inv s" and cap: "capacity s \<noteq> 0" and x: "nodeMap s key = Some x"
  shows "\<exists>s'. put s key val = Some s' \<and> lru_inv s' \<and> capacity s' = capacity s \<and>
           nodeMap s' = nodeMap s \<and>
           entries s' = filter (\<lambda>e. fst e \<noteq> key) (entries s) @ [(key, val)] \<and>
           node_prev (heap s' (dummyTail s')) = Some x \<and> node_next (heap s' x) = Some (dummyTail s')"
proof -
  note D = lru_invD[OF inv]
  have xin: "x \<in> set (lru_nodes s)" using indexed_lookup[OF D(2) x] by simp
  from updateExistingNode_inv[OF D(1,2) xin, of val]
  obtain s' where s': "updateExistingNode s x val = Some s'"
    and r: "dll s' (remove1 x (lru_nodes s) @ [x])" "indexed s' (remove1 x (lru_nodes s) @ [x])"
      "capacity s' = capacity s" "getKey s' = getKey s" "getValue s' = (getValue s)(x := val)"
    and m: "nodeMap s' = nodeMap s"
    by blast
  have "put s key val = Some s'" using s' cap x by (simp add: put_def)
  with relinked_entries[OF inv x r] r(3) m show ?thesis by simp
qed

lemma get_hit:
  assumes inv: "lru_inv s" and x: "nodeMap s key = Some x"
  shows "\<exists>s'. get s key v = Some (True, getValue s x, s') \<and> lru_inv s' \<and> capacity s' = capacity s \<and>
           nodeMap s' = nodeMap s \<and>
           entries s' = filter (\<lambda>e. fst e \<noteq> key) (entries s) @ [(key, getValue s x)] \<and>
           node_prev (heap s' (dummyTail s')) = Some x \<and> node_next (heap s' x) = Some (dummyTail s')"
proof -
  note D = lru_invD[OF inv]
  have xin: "x \<in> set (lru_nodes s)" using indexed_lookup[OF D(2) x] by simp
  from moveToMostRecent_inv[OF D(1,2) xin]
  obtain s' where s': "moveToMostRecent s x = Some s'"
    and r: "dll s' (remove1 x (lru_nodes s) @ [x])" "indexed s' (remove1 x (lru_nodes s) @ [x])"
    and sd: "same_data s s'"
    by blast
  note f = same_data_fields[OF sd]
  have v: "getValue s' = (getValue s)(x := getValue s x)" using f(7) by simp
  have "get s key v = Some (True, getValue s x, s')" using s' x f(7) by (simp add: get_def)
  with relinked_entries[OF inv x r f(1,6) v] f(1,2) show ?thesis by simp
qed

lemma put_new:
  assumes inv: "lru_inv s" and cap: "capacity s \<noteq> 0" and none: "nodeMap s key = None"
  shows "\<exists>s'. put s key val = Some s' \<and> lru_inv s' \<and> capacity s' = capacity s \<and>
           entries s' = (if capacity s \<le> length (entries s) then tl (entries s) else entries s)
                          @ [(key, val)] \<and>
           dom (nodeMap s') =
             insert key (set (if capacity s \<le> length (entries s) then tl (lru_keys s) else lru_keys s))"
proof -
  note D = lru_invD[OF inv]
  let ?ns = "lru_nodes s"
  define ns0 where "ns0 = (if capacity s \<le> length ?ns then tl ?ns else ?ns)"
  from addNewNode_inv[OF D(1,2) none, of val, folded ns0_def]
  obtain s' where s': "addNewNode s key val = Some s'"
    and r: "dll s' (ns0 @ [fresh s])" "indexed s' (ns0 @ [fresh s])" "capacity s' = capacity s"
      "\<forall>a\<in>set ns0. getKey s' a = getKey s a \<and> getValue s' a = getValue s a"
      "getKey s' (fresh s) = key" "getValue s' (fresh s) = val"
      "dom (nodeMap s') = insert key (getKey s ` set ns0)"
    by blast
  have p: "put s key val = Some s'" using s' cap none by (simp add: put_def)
  have len: "length (ns0 @ [fresh s]) \<le> capacity s'"
    using D(3) cap r(3) by (auto simp: ns0_def)
  have i': "lru_inv s'" and n': "lru_nodes s' = ns0 @ [fresh s]"
    using lru_invI[OF r(1,2) len] by auto
  have "map (\<lambda>a. (getKey s' a, getValue s' a)) ns0 = map (\<lambda>a. (getKey s a, getValue s a)) ns0"
    using r(4) by (intro map_cong) auto
  then have e: "entries s' = map (\<lambda>a. (getKey s a, getValue s a)) ns0 @ [(key, val)]"
    by (simp add: entries_def n' r(5,6))
  have e2: "map (\<lambda>a. (getKey s a, getValue s a)) ns0 =
      (if capacity s \<le> length (entries s) then tl (entries s) else entries s)"
    by (simp add: ns0_def entries_def map_tl)
  have k2: "getKey s ` set ns0 =
      set (if capacity s \<le> length (entries s) then tl (lru_keys s) else lru_keys s)"
    by (simp add: ns0_def lru_keys_def length_entries map_tl[symmetric] del: map_tl)
  show ?thesis using p i' r(3,7) e e2 k2 by simp
qed

lemma remove_inv:
  assumes inv: "lru_inv s"
  shows "lru_inv (remove s key)" "capacity (remove s key) = capacity s"
    "entries (remove s key) = filter (\<lambda>e. fst e \<noteq> key) (entries s)"
proof -
  note D = lru_invD[OF inv]
  let ?ns = "lru_nodes s"
  have "lru_inv (remove s key) \<and> capacity (remove s key) = capacity s \<and>
    entries (remove s key) = filter (\<lambda>e. fst e \<noteq> key) (entries s)"
  proof (cases "nodeMap s key")
    case None
    then have "key \<notin> dom (nodeMap s)" by auto
    then have "key \<notin> fst ` set (entries s)"
      using lru_inv_index(1)[OF inv] by (simp add: lru_keys_entries)
    then have "filter (\<lambda>e. fst e \<noteq> key) (entries s) = entries s"
      by (intro filter_True) auto
    then show ?thesis using None inv by (simp add: remove_def)
  next
    case (Some x)
    have xin: "x \<in> set ?ns" and kx: "getKey s x = key" using indexed_lookup[OF D(2) Some] by auto
    let ?s1 = "removeNode s x"
    have sd: "same_data s ?s1" by (rule removeNode_same_data)
    note f = same_data_fields[OF sd]
    let ?s' = "?s1\<lparr>nodeMap := (nodeMap s)(key := None)\<rparr>"
    have e: "remove s key = ?s'" using Some f by (simp add: remove_def Let_def)
    have d1: "dll ?s1 (remove1 x ?ns)" using D(1) xin by (rule removeNode_dll)
    have d': "dll ?s' (remove1 x ?ns)" using d1 by (rule dll_heap_cong) simp_all
    have gk: "getKey ?s' = getKey s" and gv: "getValue ?s' = getValue s"
      using f(6,7) by (simp_all add: getKey_def getValue_def fun_eq_iff)
    have dn: "distinct ?ns" using dll_distinct[OF D(1)] .
    from D(2) have dk: "distinct (map (getKey s) ?ns)"
      and m: "\<And>key' a. nodeMap s key' = Some a \<longleftrightarrow> a \<in> set ?ns \<and> getKey s a = key'"
      by (simp_all add: indexed_def)
    have inj: "inj_on (getKey s) (set ?ns)" using dk by (simp add: distinct_map)
    have "\<And>key' a. ((nodeMap s)(key := None)) key' = Some a \<longleftrightarrow>
        a \<in> set (remove1 x ?ns) \<and> getKey s a = key'"
      using m dn xin kx inj by (auto dest: inj_onD)
    moreover have "distinct (map (getKey s) (remove1 x ?ns))"
      using dk dn by (simp add: distinct_map inj_on_def)
    ultimately have i': "indexed ?s' (remove1 x ?ns)"
      unfolding indexed_def gk by simp
    have "length (remove1 x ?ns) \<le> length ?ns" by (simp add: length_remove1)
    then have len: "length (remove1 x ?ns) \<le> capacity ?s'"
      using D(3) f(1) by simp
    have inv': "lru_inv ?s'" and n': "lru_nodes ?s' = remove1 x ?ns"
      using lru_invI[OF d' i' len] by auto
    have "entries ?s' = filter (\<lambda>e. fst e \<noteq> key) (entries s)"
      using moved_entries[OF D(2) dn xin, of "getValue s"] by (simp add: entries_def n' gk gv kx)
    then show ?thesis using inv' f(1) by (simp add: e)
  qed
  then show "lru_inv (remove s key)" "capacity (remove s key) = capacity s"
    "entries (remove s key) = filter (\<lambda>e. fst e \<noteq> key) (entries s)" by simp_all
qed

lemma LruCache_new_inv:
  "lru_inv (LruCache_new k0 v0 cap)" "entries (LruCache_new k0 v0 cap) = []"
proof -
  let ?s = "LruCache_new k0 v0 cap"
  have d: "dll ?s []"
    using LruCache_new_links[of k0 v0 cap]
    by (simp add: dll_def chain_def LruCache_new_fields)
  have i: "indexed ?s []" by (simp add: indexed_def LruCache_new_fields)
  from lru_invI[OF d i] show "lru_inv ?s" "entries ?s = []" by (simp_all add: entries_def)
qed

lemma put_total:
  assumes "lru_inv s"
  shows "\<exists>s'. put s key val = Some s' \<and> lru_inv s' \<and> capacity s' = capacity s"
proof (cases "capacity s = 0")
  case True
  then show ?thesis using assms by (simp add: put_def)
next
  case False
  then show ?thesis
    using put_existing[OF assms False, of key _ val] put_new[OF assms False, of key val]
    by (cases "nodeMap s key") auto
qed

lemma get_total:
  assumes "lru_inv s"
  shows "\<exists>found val s'. get s key v = Some (found, val, s') \<and> lru_inv s' \<and> capacity s' = capacity s"
proof (cases "nodeMap s key")
  case None
  then show ?thesis using assms by (auto simp: get_def)
next
  case (Some x)
  from get_hit[OF assms Some, of v] show ?thesis by blast
qed

lemma reachable_inv: "reachable s \<Longrightarrow> lru_inv s"
proof (induction rule: reachable.induct)
  case (r_new k0 v0 cap)
  show ?case by (rule LruCache_new_inv)
next
  case (r_put s key val s1)
  from put_total[OF r_put.IH, of key val] r_put.hyps(2) show ?case by auto
next
  case (r_get s key val found val1 s1)
  from get_total[OF r_get.IH, of key val] r_get.hyps(2) show ?case by auto
next
  case (r_remove s key)
  then show ?case by (simp add: remove_inv)
qed

section \<open>Properties of LruCache\<close>

subsection \<open>Misses and the cache without capacity\<close>

text \<open>Claim C6: for a key that is absent from the index, \<open>get(key, value)\<close> returns
  \<open>false\<close>, leaves the caller's \<open>value\<close> as it was, and leaves the whole cache (index,
  list, every node) unchanged.\<close>

theorem get_absent_unchanged:
  "nodeMap s key = None \<Longrightarrow> get s key v = Some (False, v, s)"
  by (simp add: get_def)

theorem get_absent_unchanged_witness:
  "nodeMap (LruCache_new (0::nat) (0::nat) 2) 7 = None \<and>
   get (LruCache_new (0::nat) (0::nat) 2) 7 5 = Some (False, 5, LruCache_new 0 0 2)"
  using get_absent_unchanged [of "LruCache_new (0::nat) (0::nat) 2" 7 5]
  by (simp add: LruCache_new_fields)

text \<open>Claim C5: for a key that is absent from the index, the one-argument \<open>get(key)\<close>
  returns the value-initialised \<open>Value{}\<close> (and changes nothing).\<close>

theorem get_value_absent_default:
  "nodeMap s key = None \<Longrightarrow> get_value v0 s key = Some (v0, s)"
  by (simp add: get_value_def get_def)

theorem get_value_absent_default_witness:
  "nodeMap (LruCache_new (0::nat) (0::nat) 2) 7 = None \<and>
   get_value 0 (LruCache_new (0::nat) (0::nat) 2) 7 = Some (0, LruCache_new 0 0 2)"
  using get_value_absent_default [of "LruCache_new (0::nat) (0::nat) 2" 7 0]
  by (simp add: LruCache_new_fields)

lemma lru_run_capacity_zero:
  "capacity s = 0 \<Longrightarrow> nodeMap s = Map.empty \<Longrightarrow>
   lru_run v s ops = Some (map (\<lambda>_. (False, v)) (filter is_Get ops), s)"
proof (induction ops)
  case Nil
  then show ?case by simp
next
  case (Cons op ops)
  then show ?case by (cases op) (simp_all add: put_def get_def)
qed

text \<open>Claim C2: a cache constructed with a capacity \<open>\<le> 0\<close> exists (the constructor is
  total), every \<open>put\<close> on it returns without changing it, and in any sequence of \<open>put\<close>
  and \<open>get\<close> calls every \<open>get\<close> reports not-found; the cache is at the end what it was
  when constructed.\<close>

theorem nonpositive_capacity_always_misses:
  "cap \<le> 0 \<Longrightarrow>
   put (LruCache_new k0 v0 cap) key val = Some (LruCache_new k0 v0 cap) \<and>
   lru_run v (LruCache_new k0 v0 cap) ops =
     Some (map (\<lambda>_. (False, v)) (filter is_Get ops), LruCache_new k0 v0 cap)"
  by (simp add: lru_run_capacity_zero LruCache_new_fields put_def)

theorem nonpositive_capacity_always_misses_witness:
  "(-1::int) \<le> 0 \<and>
   put (LruCache_new (0::nat) (0::nat) (-1)) 3 30 = Some (LruCache_new 0 0 (-1)) \<and>
   lru_run 9 (LruCache_new (0::nat) (0::nat) (-1)) [Put 3 30, Get 3, Put 4 40, Get 4, Get 3] =
     Some ([(False, 9), (False, 9), (False, 9)], LruCache_new 0 0 (-1))"
  using nonpositive_capacity_always_misses [of "-1" "0::nat" "0::nat" 3 30 9 "[Put 3 30, Get 3, Put 4 40, Get 4, Get 3]"]
  by (simp del: lru_run.simps)

subsection \<open>The capacity bound\<close>

lemma lru_run_inv:
  assumes "lru_inv s"
  shows "\<exists>rs s'. lru_run v s ops = Some (rs, s') \<and> lru_inv s' \<and> capacity s' = capacity s"
  using assms
proof (induction ops arbitrary: s)
  case Nil
  then show ?case by simp
next
  case (Cons op ops)
  show ?case
  proof (cases op)
    case (Put key val)
    from put_total[OF Cons.prems, of key val] obtain s1 where
      s1: "put s key val = Some s1" "lru_inv s1" "capacity s1 = capacity s" by blast
    from Cons.IH[OF s1(2)] s1(1,3) Put show ?thesis by auto
  next
    case (Get key)
    from get_total[OF Cons.prems, of key v] obtain found val s1 where
      s1: "get s key v = Some (found, val, s1)" "lru_inv s1" "capacity s1 = capacity s" by blast
    from Cons.IH[OF s1(2)] s1(1,3) Get show ?thesis by auto
  qed
qed

text \<open>Claim C1: for every capacity \<open>cap \<ge> 0\<close> and every sequence of calls on an
  \<open>LruCache\<close> constructed with it (of \<open>put\<close>, and of \<open>get\<close> as well), the calls all
  return and the number of keys in the index afterwards is at most \<open>cap\<close>. The sequence is
  arbitrary, so the bound holds after each of its calls. (On a new key at full capacity
  \<open>addNewNode\<close> evicts before it inserts: lemma \<open>put_new\<close>.)\<close>

theorem index_size_bounded:
  "0 \<le> cap \<Longrightarrow>
   \<exists>rs s. lru_run v (LruCache_new k0 v0 cap) ops = Some (rs, s) \<and>
          capacity s = nat cap \<and> int (map_size (nodeMap s)) \<le> cap"
proof -
  assume c: "0 \<le> cap"
  from lru_run_inv[OF LruCache_new_inv(1), of v k0 v0 cap ops]
  obtain rs s where r: "lru_run v (LruCache_new k0 v0 cap) ops = Some (rs, s)" "lru_inv s"
    "capacity s = capacity (LruCache_new k0 v0 cap)" by blast
  from lru_inv_index(3,4)[OF r(2)] r(3) c have "capacity s = nat cap" "int (map_size (nodeMap s)) \<le> cap"
    by (auto simp: LruCache_new_fields split: if_splits)
  with r(1) show ?thesis by blast
qed

theorem index_size_bounded_witness:
  "(0::int) \<le> 2 \<and>
   (\<exists>rs s. lru_run (0::nat) (LruCache_new (0::nat) 0 2) [Put 1 10, Put 2 20, Put 3 30] = Some (rs, s) \<and>
          capacity s = nat 2 \<and> int (map_size (nodeMap s)) \<le> 2)"
  using index_size_bounded [of 2 "0::nat" "0::nat" "0::nat" "[Put 1 10, Put 2 20, Put 3 30]"]
  by (simp del: lru_run.simps)

subsection \<open>Eviction order\<close>

lemma full_nonempty:
  assumes "lru_inv s" "1 \<le> capacity s" "capacity s \<le> map_size (nodeMap s)"
  shows "lru_nodes s \<noteq> []" "capacity s \<le> length (entries s)"
  using assms lru_inv_index(3)[OF assms(1)] by (auto simp: length_entries)

text \<open>Claim C9: in a cache with capacity \<open>\<ge> 1\<close> that the public interface can produce,
  a \<open>put\<close> of a new key at full capacity evicts exactly the key of the node after the head
  sentinel, the oldest of \<open>lru_keys\<close>, and appends the new key; a \<open>get\<close> hit and a \<open>put\<close> on
  an existing key leave the node of that key immediately before the tail sentinel, which
  makes the key the last of \<open>lru_keys\<close>, the last to be evicted.\<close>

theorem evicts_least_recent:
  assumes "reachable s" and "1 \<le> capacity s"
  shows "(nodeMap s key = None \<and> capacity s \<le> map_size (nodeMap s) \<longrightarrow>
           (\<exists>s' lr. put s key val = Some s' \<and>
              node_next (heap s (dummyHead s)) = Some lr \<and> lr \<noteq> dummyTail s \<and>
              getKey s lr = hd (lru_keys s) \<and>
              dom (nodeMap s') = insert key (dom (nodeMap s) - {getKey s lr}) \<and>
              lru_keys s' = tl (lru_keys s) @ [key])) \<and>
         (nodeMap s key = Some x \<longrightarrow>
           (\<exists>s'. get s key v = Some (True, getValue s x, s') \<and>
              node_prev (heap s' (dummyTail s')) = Some x \<and>
              node_next (heap s' x) = Some (dummyTail s') \<and>
              lru_keys s' = filter (\<lambda>k. k \<noteq> key) (lru_keys s) @ [key]) \<and>
           (\<exists>s'. put s key val = Some s' \<and>
              node_prev (heap s' (dummyTail s')) = Some x \<and>
              node_next (heap s' x) = Some (dummyTail s') \<and>
              lru_keys s' = filter (\<lambda>k. k \<noteq> key) (lru_keys s) @ [key]))"
proof (intro conjI impI)
  have inv: "lru_inv s" using assms(1) by (rule reachable_inv)
  have cap: "capacity s \<noteq> 0" using assms(2) by simp
  note D = lru_invD[OF inv]
  have fm: "\<And>es. map fst (filter (\<lambda>e. fst e \<noteq> key) es) = filter (\<lambda>k. k \<noteq> key) (map fst es)"
    by (simp add: filter_map comp_def)
  {
    assume a: "nodeMap s key = None \<and> capacity s \<le> map_size (nodeMap s)"
    then have ne: "lru_nodes s \<noteq> []" and full: "capacity s \<le> length (entries s)"
      using full_nonempty[OF inv assms(2)] by auto
    from put_new[OF inv cap, of key val] a full obtain s' where
      s': "put s key val = Some s'" "entries s' = tl (entries s) @ [(key, val)]"
      "dom (nodeMap s') = insert key (set (tl (lru_keys s)))" by auto
    let ?lr = "hd (lru_nodes s)"
    have k: "getKey s ?lr = hd (lru_keys s)" using ne by (simp add: lru_keys_def hd_map)
    have "distinct (lru_keys s)" "lru_keys s \<noteq> []"
      using lru_inv_index(2)[OF inv] ne by (simp_all add: lru_keys_def)
    then have "set (tl (lru_keys s)) = set (lru_keys s) - {hd (lru_keys s)}"
      by (cases "lru_keys s") auto
    then have "dom (nodeMap s') = insert key (dom (nodeMap s) - {getKey s ?lr})"
      using s'(3) lru_inv_index(1)[OF inv] k by simp
    moreover have "lru_keys s' = tl (lru_keys s) @ [key]"
      using s'(2) by (simp add: lru_keys_entries map_tl)
    ultimately show "\<exists>s' lr. put s key val = Some s' \<and>
              node_next (heap s (dummyHead s)) = Some lr \<and> lr \<noteq> dummyTail s \<and>
              getKey s lr = hd (lru_keys s) \<and>
              dom (nodeMap s') = insert key (dom (nodeMap s) - {getKey s lr}) \<and>
              lru_keys s' = tl (lru_keys s) @ [key]"
      using s'(1) dll_ends(1,4)[OF D(1) ne] k by blast
  }
  {
    assume x: "nodeMap s key = Some x"
    from get_hit[OF inv x, of v] show "\<exists>s'. get s key v = Some (True, getValue s x, s') \<and>
              node_prev (heap s' (dummyTail s')) = Some x \<and>
              node_next (heap s' x) = Some (dummyTail s') \<and>
              lru_keys s' = filter (\<lambda>k. k \<noteq> key) (lru_keys s) @ [key]"
      by (auto simp: lru_keys_entries fm)
    from put_existing[OF inv cap x, of val] show "\<exists>s'. put s key val = Some s' \<and>
              node_prev (heap s' (dummyTail s')) = Some x \<and>
              node_next (heap s' x) = Some (dummyTail s') \<and>
              lru_keys s' = filter (\<lambda>k. k \<noteq> key) (lru_keys s) @ [key]"
      by (auto simp: lru_keys_entries fm)
  }
qed

theorem evicts_least_recent_witness:
  "\<exists>s1 s. put (LruCache_new (0::nat) (0::nat) 2) 1 10 = Some s1 \<and> put s1 2 20 = Some s \<and>
     reachable s \<and> 1 \<le> capacity s \<and>
     nodeMap s 3 = None \<and> capacity s \<le> map_size (nodeMap s) \<and>
     (\<exists>s' lr. put s 3 30 = Some s' \<and>
        node_next (heap s (dummyHead s)) = Some lr \<and> lr \<noteq> dummyTail s \<and>
        getKey s lr = hd (lru_keys s) \<and>
        dom (nodeMap s') = insert 3 (dom (nodeMap s) - {getKey s lr}) \<and>
        lru_keys s' = tl (lru_keys s) @ [3]) \<and>
     nodeMap s 1 = Some 2 \<and>
     (\<exists>s'. get s 1 0 = Some (True, getValue s 2, s') \<and>
        node_prev (heap s' (dummyTail s')) = Some 2 \<and>
        node_next (heap s' 2) = Some (dummyTail s') \<and>
        lru_keys s' = filter (\<lambda>k. k \<noteq> 1) (lru_keys s) @ [1]) \<and>
     (\<exists>s'. put s 1 11 = Some s' \<and>
        node_prev (heap s' (dummyTail s')) = Some 2 \<and>
        node_next (heap s' 2) = Some (dummyTail s') \<and>
        lru_keys s' = filter (\<lambda>k. k \<noteq> 1) (lru_keys s) @ [1])"
proof -
  define s1 where "s1 = the (put (LruCache_new (0::nat) (0::nat) 2) 1 10)"
  define s where "s = the (put s1 2 20)"
  have p1: "put (LruCache_new (0::nat) (0::nat) 2) 1 10 = Some s1"
    unfolding s1_def by (simp add: lru_defs Let_def)
  have p2: "put s1 2 20 = Some s"
    unfolding s_def s1_def by (simp add: lru_defs Let_def)
  have f: "nodeMap s 3 = None" "nodeMap s 1 = Some 2" "capacity s = 2" "map_size (nodeMap s) = 2"
    unfolding s_def s1_def by (simp_all add: lru_defs Let_def)
  have r: "reachable s" using r_put[OF r_put[OF r_new p1] p2] .
  have c: "1 \<le> capacity s" using f(3) by simp
  from evicts_least_recent[OF r c, of 3 30 2 0] f
  have a: "\<exists>s' lr. put s 3 30 = Some s' \<and>
        node_next (heap s (dummyHead s)) = Some lr \<and> lr \<noteq> dummyTail s \<and>
        getKey s lr = hd (lru_keys s) \<and>
        dom (nodeMap s') = insert 3 (dom (nodeMap s) - {getKey s lr}) \<and>
        lru_keys s' = tl (lru_keys s) @ [3]" by simp
  from evicts_least_recent[OF r c, of 1 11 2 0] f
  have b: "(\<exists>s'. get s 1 0 = Some (True, getValue s 2, s') \<and>
        node_prev (heap s' (dummyTail s')) = Some 2 \<and>
        node_next (heap s' 2) = Some (dummyTail s') \<and>
        lru_keys s' = filter (\<lambda>k. k \<noteq> 1) (lru_keys s) @ [1]) \<and>
     (\<exists>s'. put s 1 11 = Some s' \<and>
        node_prev (heap s' (dummyTail s')) = Some 2 \<and>
        node_next (heap s' 2) = Some (dummyTail s') \<and>
        lru_keys s' = filter (\<lambda>k. k \<noteq> 1) (lru_keys s) @ [1])" by simp
  have full: "capacity s \<le> map_size (nodeMap s)" using f(3,4) by simp
  from p1 p2 r c f(1,2) full a b show ?thesis by blast
qed
section \<open>Properties of LruKCache\<close>

lemma reached_k_sint:
  assumes "reached_k c k"
  shows "sint k \<le> uint c"
proof (cases "0 \<le> sint k")
  case False
  then show ?thesis using uint_ge_0[of c] by linarith
next
  case True
  have "sint k < 2 ^ 31" using sint_lt[of k] by simp
  then have "sint k < 2 ^ 64" by simp
  have "uint (word_of_int (sint k) :: 64 word) = take_bit 64 (sint k)"
    by (simp only: uint_word_of_int_eq) simp
  also have "\<dots> = sint k"
    using True \<open>sint k < 2 ^ 64\<close> by (rule take_bit_int_eq_self)
  finally have "uint (scast k :: 64 word) = sint k" by (simp only: scast_eq)
  then show ?thesis using assms by (simp add: reached_k_def word_le_def)
qed

lemma get_nodeMap:
  assumes "get s key v = Some (found, val, s')"
  shows "nodeMap s' = nodeMap s" "found \<longleftrightarrow> nodeMap s key \<noteq> None"
    "nodeMap s key = None \<Longrightarrow> s' = s"
proof -
  show "found \<longleftrightarrow> nodeMap s key \<noteq> None" "nodeMap s key = None \<Longrightarrow> s' = s"
    using assms by (auto simp: get_def split: option.splits bind_splits)
  show "nodeMap s' = nodeMap s"
  proof (cases "nodeMap s key")
    case None
    then show ?thesis using assms by (simp add: get_def)
  next
    case (Some x)
    with assms have "insertNode (removeNode s x) x = Some s'"
      by (auto simp: get_def moveToMostRecent_def split: bind_splits)
    from insertNode_same_data[OF this] removeNode_same_data[of s x] show ?thesis
      by (simp add: same_data_def)
  qed
qed

lemma put_dom:
  assumes "put s key val = Some s'"
  shows "dom (nodeMap s') \<subseteq> insert key (dom (nodeMap s))"
proof (cases "capacity s = 0")
  case True
  then show ?thesis using assms by (auto simp: put_def)
next
  case False
  show ?thesis
  proof (cases "nodeMap s key")
    case (Some x)
    with assms False have "insertNode (removeNode (setValue x val s) x) x = Some s'"
      by (simp add: put_def updateExistingNode_def moveToMostRecent_def)
    from insertNode_same_data[OF this] removeNode_same_data[of "setValue x val s" x]
    have "nodeMap s' = nodeMap s" by (simp add: same_data_def setValue_fields)
    then show ?thesis by auto
  next
    case None
    define s1 where "s1 = (if map_size (nodeMap s) \<ge> capacity s then evictLeastRecent s else s)"
    have e: "dom (nodeMap (evictLeastRecent s)) \<subseteq> dom (nodeMap s)"
      using removeNode_same_data[of s]
      by (auto simp: evictLeastRecent_def Let_def same_data_def split: option.splits if_splits)
    then have 1: "dom (nodeMap s1) \<subseteq> dom (nodeMap s)" by (simp add: s1_def)
    from assms False None obtain s3 where
      s3: "insertNode (snd (make_shared s1 (mkNode key val))) (fresh s1) = Some s3"
      and s': "s' = s3\<lparr>nodeMap := try_emplace (nodeMap s3) key (fresh s1)\<rparr>"
      by (auto simp: put_def addNewNode_def Let_def s1_def make_shared_def split: bind_splits)
    from insertNode_same_data[OF s3] have "nodeMap s3 = nodeMap s1"
      by (simp add: same_data_def make_shared_fields)
    then have "dom (nodeMap s') \<subseteq> insert key (dom (nodeMap s1))"
      by (auto simp: s' try_emplace_def split: option.splits if_splits)
    with 1 show ?thesis by blast
  qed
qed

lemma get_value_total:
  assumes "lru_inv s"
  shows "\<exists>val s'. get_value v0 s key = Some (val, s') \<and> lru_inv s'"
  using get_total[OF assms, of key v0] by (auto simp: get_value_def)

lemma lruk_history_step:
  assumes "lru_inv (historyList s)"
  shows "\<exists>count0 h1 h2. get_value 0 (historyList s) key = Some (count0, h1) \<and>
           historyCount_of s key = count0 + 1 \<and>
           put h1 key (count0 + 1) = Some h2 \<and> lru_inv h2"
proof -
  from get_value_total[OF assms, of 0 key] obtain count0 h1 where
    1: "get_value 0 (historyList s) key = Some (count0, h1)" "lru_inv h1" by blast
  from put_total[OF 1(2), of key "count0 + 1"] obtain h2 where
    2: "put h1 key (count0 + 1) = Some h2" "lru_inv h2" by blast
  from 1 2 show ?thesis by (simp add: historyCount_of_def)
qed

lemma lruk_main_step:
  assumes "lru_inv (base s)"
  shows "\<exists>found v m1. get (base s) key v0 = Some (found, v, m1) \<and> lru_inv m1 \<and>
           nodeMap m1 = nodeMap (base s) \<and> (found \<longleftrightarrow> in_main s key) \<and>
           (\<not> in_main s key \<longrightarrow> m1 = base s)"
proof -
  from get_total[OF assms, of key v0] obtain found v m1 where
    1: "get (base s) key v0 = Some (found, v, m1)" "lru_inv m1" by blast
  from get_nodeMap[OF 1(1)] 1 show ?thesis by (auto simp: in_main_def)
qed

lemma lruk_main_put:
  assumes "lru_inv m1" "nodeMap m1 = nodeMap (base s)"
  shows "\<exists>m2. put m1 key val = Some m2 \<and> lru_inv m2 \<and>
           (\<forall>x. nodeMap m2 x \<noteq> None \<longrightarrow> in_main s x \<or> x = key)"
proof -
  from put_total[OF assms(1), of key val] obtain m2 where
    1: "put m1 key val = Some m2" "lru_inv m2" by blast
  from put_dom[OF 1(1)] assms(2) have "\<forall>x. nodeMap m2 x \<noteq> None \<longrightarrow> in_main s x \<or> x = key"
    by (auto simp: in_main_def)
  with 1 show ?thesis by blast
qed

lemma LruKCache_put_admission:
  assumes "lru_inv (base s)" "lru_inv (historyList s)"
  shows "\<exists>s1. LruKCache_put v0 s key val = Some s1 \<and>
     lru_inv (base s1) \<and> lru_inv (historyList s1) \<and> lruk_k s1 = lruk_k s \<and>
     (\<forall>x. in_main s1 x \<longrightarrow> in_main s x \<or> x = key \<and> reached_k (historyCount_of s key) (lruk_k s)) \<and>
     (\<not> in_main s key \<and> \<not> reached_k (historyCount_of s key) (lruk_k s) \<longrightarrow>
         base s1 = base s \<and> historyValueMap s1 key = Some val)"
proof -
  from lruk_main_step[OF assms(1), of key v0] obtain found v m1 where
    m: "get (base s) key v0 = Some (found, v, m1)" "lru_inv m1"
    "nodeMap m1 = nodeMap (base s)" "found \<longleftrightarrow> in_main s key" "\<not> in_main s key \<longrightarrow> m1 = base s"
    by blast
  from lruk_history_step[OF assms(2), of key] obtain count0 h1 h2 where
    h: "get_value 0 (historyList s) key = Some (count0, h1)" "historyCount_of s key = count0 + 1"
    "put h1 key (count0 + 1) = Some h2" "lru_inv h2" by blast
  from lruk_main_put[OF m(2,3), of key val] obtain m2 where
    p: "put m1 key val = Some m2" "lru_inv m2" "\<forall>x. nodeMap m2 x \<noteq> None \<longrightarrow> in_main s x \<or> x = key"
    by blast
  show ?thesis
  proof (cases "in_main s key")
    case True
    then show ?thesis using m p assms(2) by (auto simp: LruKCache_put_def in_main_def)
  next
    case False
    show ?thesis
    proof (cases "reached_k (historyCount_of s key) (lruk_k s)")
      case True
      then show ?thesis using False m h p remove_inv(1)[OF h(4), of key]
        by (auto simp: LruKCache_put_def in_main_def Let_def)
    next
      case nr: False
      then show ?thesis using False m h
        by (auto simp: LruKCache_put_def in_main_def Let_def)
    qed
  qed
qed

lemma LruKCache_get_admission:
  assumes "lru_inv (base s)" "lru_inv (historyList s)"
  shows "\<exists>r s2. LruKCache_get v0 s key = Some (r, s2) \<and>
     lru_inv (base s2) \<and> lru_inv (historyList s2) \<and> lruk_k s2 = lruk_k s \<and>
     (\<forall>x. in_main s2 x \<longrightarrow> in_main s x \<or> x = key \<and> reached_k (historyCount_of s key) (lruk_k s)) \<and>
     (\<not> in_main s key \<and> \<not> reached_k (historyCount_of s key) (lruk_k s) \<longrightarrow>
         base s2 = base s \<and> historyValueMap s2 = historyValueMap s)"
proof -
  from lruk_main_step[OF assms(1), of key v0] obtain found v m1 where
    m: "get (base s) key v0 = Some (found, v, m1)" "lru_inv m1"
    "nodeMap m1 = nodeMap (base s)" "found \<longleftrightarrow> in_main s key" "\<not> in_main s key \<longrightarrow> m1 = base s"
    by blast
  from lruk_history_step[OF assms(2), of key] obtain count0 h1 h2 where
    h: "get_value 0 (historyList s) key = Some (count0, h1)" "historyCount_of s key = count0 + 1"
    "put h1 key (count0 + 1) = Some h2" "lru_inv h2" by blast
  show ?thesis
  proof (cases "in_main s key")
    case True
    then show ?thesis using m h by (auto simp: LruKCache_get_def in_main_def)
  next
    case False
    show ?thesis
    proof (cases "reached_k (historyCount_of s key) (lruk_k s)")
      case nr: False
      then show ?thesis using False m h
        by (auto simp: LruKCache_get_def in_main_def Let_def)
    next
      case True
      show ?thesis
      proof (cases "historyValueMap s key")
        case None
        then show ?thesis using True False m h
          by (auto simp: LruKCache_get_def in_main_def Let_def)
      next
        case (Some stored)
        from lruk_main_put[OF m(2,3), of key stored] obtain m2 where
          p: "put m1 key stored = Some m2" "lru_inv m2"
            "\<forall>x. nodeMap m2 x \<noteq> None \<longrightarrow> in_main s x \<or> x = key"
          by blast
        then show ?thesis using Some True False m h remove_inv(1)[OF h(4), of key]
          by (auto simp: LruKCache_get_def in_main_def Let_def)
      qed
    qed
  qed
qed

lemma LruKCache_new_inv:
  "lru_inv (base (LruKCache_new k0 v0 cap hcap k))" "lru_inv (historyList (LruKCache_new k0 v0 cap hcap k))"
  by (simp_all add: LruKCache_new_def LruCache_new_inv)

text \<open>Claim C10: on an \<open>LruKCache\<close> whose two caches are well formed, \<open>put\<close> and \<open>get\<close>
  return, keep both caches well formed, and a key is in the main cache afterwards only if
  it was there before or it is the key of the call and the count read from the history
  cache and incremented has reached \<open>k_\<close> (as the source compares them, which implies
  \<open>k_ \<le> count\<close> as numbers). While the key of the call is not in the main cache and its
  count has not reached \<open>k_\<close>, the call leaves the main cache as it is, and \<open>put\<close> stores
  the value in \<open>historyValueMap_\<close>.\<close>

theorem lruk_admission:
  assumes "lru_inv (base s)" and "lru_inv (historyList s)"
  shows "\<exists>s1 r s2. LruKCache_put v0 s key val = Some s1 \<and> LruKCache_get v0 s key = Some (r, s2) \<and>
     lru_inv (base s1) \<and> lru_inv (historyList s1) \<and> lru_inv (base s2) \<and> lru_inv (historyList s2) \<and>
     (\<forall>x. in_main s1 x \<longrightarrow> in_main s x \<or> x = key \<and> reached_k (historyCount_of s key) (lruk_k s)) \<and>
     (\<forall>x. in_main s2 x \<longrightarrow> in_main s x \<or> x = key \<and> reached_k (historyCount_of s key) (lruk_k s)) \<and>
     (\<not> in_main s key \<and> \<not> reached_k (historyCount_of s key) (lruk_k s) \<longrightarrow>
         base s1 = base s \<and> historyValueMap s1 key = Some val \<and> base s2 = base s) \<and>
     (reached_k (historyCount_of s key) (lruk_k s) \<longrightarrow>
         sint (lruk_k s) \<le> uint (historyCount_of s key))"
  using LruKCache_put_admission[OF assms, of v0 key val] LruKCache_get_admission[OF assms, of v0 key]
    reached_k_sint[of "historyCount_of s key" "lruk_k s"]
  by blast

lemmas lruk_defs = LruKCache_new_def LruKCache_put_def LruKCache_get_def historyCount_of_def
  in_main_def reached_k_def

theorem lruk_admission_witness:
  "lru_inv (base (LruKCache_new (0::nat) (0::nat) 2 2 2)) \<and>
   lru_inv (historyList (LruKCache_new (0::nat) (0::nat) 2 2 2)) \<and>
   \<not> in_main (LruKCache_new (0::nat) (0::nat) 2 2 2) 1 \<and>
   \<not> reached_k (historyCount_of (LruKCache_new (0::nat) (0::nat) 2 2 2) 1) 2 \<and>
   (\<exists>s1. LruKCache_put 0 (LruKCache_new (0::nat) (0::nat) 2 2 2) 1 10 = Some s1 \<and>
      base s1 = base (LruKCache_new 0 0 2 2 2) \<and> historyValueMap s1 1 = Some 10 \<and>
      lru_inv (base s1) \<and> lru_inv (historyList s1) \<and>
      reached_k (historyCount_of s1 1) (lruk_k s1) \<and>
      sint (lruk_k s1) \<le> uint (historyCount_of s1 1))"
proof -
  let ?s = "LruKCache_new (0::nat) (0::nat) 2 2 2"
  have i: "lru_inv (base ?s)" "lru_inv (historyList ?s)" by (rule LruKCache_new_inv)+
  have n: "\<not> in_main ?s 1" "\<not> reached_k (historyCount_of ?s 1) 2" "lruk_k ?s = 2"
    by (simp_all add: lruk_defs lru_defs Let_def word_le_def)
  from lruk_admission[OF i, of 0 1 10] n obtain s1 where
    s1: "LruKCache_put 0 ?s 1 10 = Some s1" "lru_inv (base s1)" "lru_inv (historyList s1)"
      "base s1 = base ?s" "historyValueMap s1 1 = Some 10"
    by auto
  have "s1 = the (LruKCache_put 0 ?s 1 10)" using s1(1) by simp
  then have r: "reached_k (historyCount_of s1 1) (lruk_k s1)"
    by (simp add: lruk_defs lru_defs Let_def word_le_def)
  from lruk_admission[OF s1(2,3), of 0 1 10] r
  have "sint (lruk_k s1) \<le> uint (historyCount_of s1 1)" by blast
  with i n s1 r show ?thesis by blast
qed
section \<open>Properties of KHashLruCaches\<close>

lemma size_t_to_int_small:
  assumes "n < 2 ^ 31"
  shows "size_t_to_int n = int n"
proof -
  have "sint (word_of_int (int n) :: 32 word) = signed_take_bit 31 (int n)"
    by (simp only: sint_sbintrunc') simp
  also have "\<dots> = int n"
    using assms by (intro signed_take_bit_int_eq_self) auto
  finally show ?thesis by (simp add: size_t_to_int_def)
qed

lemma slice_capacity_small:
  assumes "n < 2 ^ 31"
  shows "capacity (LruCache_new k0 v0 (size_t_to_int n)) = n"
  using assms by (simp add: size_t_to_int_small LruCache_new_fields)

lemma KHashLruCaches_new_small:
  assumes "0 < n" "cap < 2 ^ 53" "ceil_div cap n < 2 ^ 31"
  shows "\<exists>s. KHashLruCaches_new k0 v0 hw cap n = Some s \<and> sliceNum s = n \<and>
           length (lruSliceCaches s) = nat n \<and>
           (\<forall>i<nat n. lruSliceCaches s ! i = LruCache_new k0 v0 (size_t_to_int (ceil_div cap n)) \<and>
              capacity (lruSliceCaches s ! i) = ceil_div cap n)"
  using assms by (simp add: KHashLruCaches_new_def Let_def slice_capacity_small)

lemma slice_capacities_small:
  assumes "0 < n" "cap < 2 ^ 53" "ceil_div cap n < 2 ^ 31"
  shows "slice_capacities (KHashLruCaches_new k0 v0 hw cap n) = Some (replicate (nat n) (ceil_div cap n))"
  using assms
  by (simp add: KHashLruCaches_new_def Let_def slice_capacities_def comp_def slice_capacity_small
      map_replicate_const)

text \<open>Claim C7: with an explicit slice count \<open>n > 0\<close> the constructor builds \<open>n\<close> slices, each
  of capacity \<open>ceil(capacity / n)\<close>. That holds while the slice size fits an \<open>int\<close> (lemma
  \<open>slice_capacities_small\<close>). It fails beyond: for a total capacity of \<open>2^31\<close> and one slice
  the slice size is \<open>2^31\<close>, which the \<open>int\<close> parameter of \<open>LruCache\<close> receives as a negative
  number, and the one slice has capacity 0.\<close>

theorem slice_capacity_truncated:
  "ceil_div 2147483648 1 = 2147483648 \<and>
   slice_capacities (KHashLruCaches_new (0::nat) (0::nat) 8 2147483648 1) = Some [0]"
  by (simp add: ceil_div_def slice_capacities_def KHashLruCaches_new_def Let_def size_t_to_int_def
      LruCache_new_fields)

lemma put_append:
  assumes inv: "lru_inv s" and k: "key \<notin> fst ` set (entries s)" and room: "length (entries s) < capacity s"
  shows "\<exists>s'. put s key val = Some s' \<and> lru_inv s' \<and> capacity s' = capacity s \<and>
           entries s' = entries s @ [(key, val)]"
proof -
  have cap: "capacity s \<noteq> 0" using room by simp
  have "key \<notin> dom (nodeMap s)" using k lru_inv_index(1)[OF inv] by (simp add: lru_keys_entries)
  then have none: "nodeMap s key = None" by auto
  from put_new[OF inv cap none, of val] room show ?thesis by auto
qed

lemma map_of_relinked:
  assumes "map_of es key = Some v"
  shows "map_of (filter (\<lambda>e. fst e \<noteq> key) es @ [(key, v)]) = map_of es"
proof
  fix k
  have f: "map_of (filter (\<lambda>e. fst e \<noteq> key) es) k = (if k = key then None else map_of es k)"
    by (induction es) auto
  show "map_of (filter (\<lambda>e. fst e \<noteq> key) es @ [(key, v)]) k = map_of es k"
    using assms by (auto simp: map_add_def f split: option.splits)
qed

lemma get_contents:
  assumes inv: "lru_inv s" and v: "map_of (entries s) key = Some val"
  shows "\<exists>s'. get s key v0 = Some (True, val, s') \<and> lru_inv s' \<and> capacity s' = capacity s \<and>
           map_of (entries s') = map_of (entries s)"
proof -
  from v map_of_entries[OF inv, of key] obtain x where
    x: "nodeMap s key = Some x" "getValue s x = val" by (cases "nodeMap s key") auto
  from get_hit[OF inv x(1), of v0] obtain s' where
    s': "get s key v0 = Some (True, getValue s x, s')" "lru_inv s'" "capacity s' = capacity s"
    "entries s' = filter (\<lambda>e. fst e \<noteq> key) (entries s) @ [(key, getValue s x)]" by blast
  from map_of_relinked[OF v] s' x(2) show ?thesis by simp
qed

lemma routed_append:
  "routed Hash n i (xs @ ys) = routed Hash n i xs @ routed Hash n i ys"
  by (simp add: routed_def)

lemma routed_single:
  "routed Hash n i [(key, val)] = (if unat (Hash key) mod n = i then [(key, val)] else [])"
  by (simp add: routed_def)

lemma routed_subset: "set (routed Hash n i xs) \<subseteq> set xs"
  by (auto simp: routed_def)

lemma map_of_routed:
  assumes "unat (Hash key) mod n = i"
  shows "map_of (routed Hash n i kvs) key = map_of kvs key"
  using assms by (induction kvs) (auto simp: routed_def)

lemma sliceIndex_less: "0 < sliceNum s \<Longrightarrow> sliceIndex Hash s key < nat (sliceNum s)"
  by (simp add: sliceIndex_def)

lemma KHash_put_step:
  assumes h: "slices_hold Hash s c done" and k: "key \<notin> fst ` set done"
    and room: "length (routed Hash (nat (sliceNum s)) (sliceIndex Hash s key) done) < c"
  shows "\<exists>s'. KHashLruCaches_put Hash s key val = Some s' \<and> sliceNum s' = sliceNum s \<and>
           slices_hold Hash s' c (done @ [(key, val)])"
proof -
  let ?n = "nat (sliceNum s)"
  let ?i = "sliceIndex Hash s key"
  let ?c = "lruSliceCaches s ! ?i"
  from h have n: "0 < sliceNum s" and len: "length (lruSliceCaches s) = ?n"
    and all: "\<And>i. i < ?n \<Longrightarrow> lru_inv (lruSliceCaches s ! i) \<and> capacity (lruSliceCaches s ! i) = c \<and>
        entries (lruSliceCaches s ! i) = routed Hash ?n i done"
    by (simp_all add: slices_hold_def)
  have i: "?i < ?n" using n by (rule sliceIndex_less)
  from all[OF i] have ci: "lru_inv ?c" "capacity ?c = c" "entries ?c = routed Hash ?n ?i done"
    by simp_all
  have "key \<notin> fst ` set (entries ?c)" using k routed_subset[of Hash ?n ?i "done"] ci(3) by auto
  moreover have "length (entries ?c) < capacity ?c" using room ci by simp
  ultimately obtain c' where c': "put ?c key val = Some c'" "lru_inv c'" "capacity c' = capacity ?c"
    "entries c' = entries ?c @ [(key, val)]"
    using put_append[OF ci(1), of key val] by blast
  let ?s' = "s\<lparr>lruSliceCaches := (lruSliceCaches s)[?i := c']\<rparr>"
  have p: "KHashLruCaches_put Hash s key val = Some ?s'"
    using i len c'(1) by (simp add: KHashLruCaches_put_def Let_def)
  have "slices_hold Hash ?s' c (done @ [(key, val)])"
    unfolding slices_hold_def
  proof (intro conjI allI impI)
    show "0 < sliceNum ?s'" using n by simp
    show "length (lruSliceCaches ?s') = nat (sliceNum ?s')" using len by simp
  next
    fix j assume "j < nat (sliceNum ?s')"
    then have j: "j < ?n" by simp
    show "lru_inv (lruSliceCaches ?s' ! j)"
      using all[OF j] c'(2) len j by (cases "j = ?i") simp_all
    show "capacity (lruSliceCaches ?s' ! j) = c"
      using all[OF j] c'(3) ci(2) len j by (cases "j = ?i") simp_all
    show "entries (lruSliceCaches ?s' ! j) = routed Hash (nat (sliceNum ?s')) j (done @ [(key, val)])"
    proof (cases "j = ?i")
      case True
      then show ?thesis using c'(4) ci(3) len j
        by (simp add: routed_append routed_single sliceIndex_def)
    next
      case False
      then show ?thesis using all[OF j] len j
        by (simp add: routed_append routed_single sliceIndex_def)
    qed
  qed
  with p show ?thesis by simp
qed

lemma KHash_put_all_hold:
  assumes "slices_hold Hash s c done" "distinct (map fst (done @ kvs))"
    and "\<forall>i<nat (sliceNum s). length (routed Hash (nat (sliceNum s)) i (done @ kvs)) \<le> c"
  shows "\<exists>s'. KHash_put_all Hash s kvs = Some s' \<and> sliceNum s' = sliceNum s \<and>
           slices_hold Hash s' c (done @ kvs)"
  using assms
proof (induction kvs arbitrary: s "done")
  case Nil
  then show ?case by simp
next
  case (Cons kv kvs)
  obtain key val where kv: "kv = (key, val)" by (cases kv)
  let ?n = "nat (sliceNum s)"
  let ?i = "sliceIndex Hash s key"
  have n: "0 < sliceNum s" using Cons.prems(1) by (simp add: slices_hold_def)
  have i: "?i < ?n" using n by (rule sliceIndex_less)
  have k: "key \<notin> fst ` set done" using Cons.prems(2) by (auto simp: kv)
  have "length (routed Hash ?n ?i (done @ kv # kvs)) \<le> c" using Cons.prems(3) i by blast
  moreover have "length (routed Hash ?n ?i (done @ kv # kvs)) =
      length (routed Hash ?n ?i done) + 1 + length (routed Hash ?n ?i kvs)"
    using routed_append[of Hash ?n ?i "done" "[(key, val)] @ kvs"]
      routed_append[of Hash ?n ?i "[(key, val)]" kvs]
    by (simp add: kv routed_single sliceIndex_def)
  ultimately have room: "length (routed Hash ?n ?i done) < c" by simp
  from KHash_put_step[OF Cons.prems(1) k room, of val] obtain s1 where
    s1: "KHashLruCaches_put Hash s key val = Some s1" "sliceNum s1 = sliceNum s"
      "slices_hold Hash s1 c (done @ [(key, val)])" by blast
  have d: "distinct (map fst ((done @ [(key, val)]) @ kvs))" using Cons.prems(2) by (simp add: kv)
  have b: "\<forall>i<nat (sliceNum s1). length (routed Hash (nat (sliceNum s1)) i ((done @ [(key, val)]) @ kvs)) \<le> c"
    using Cons.prems(3) s1(2) by (simp add: kv)
  from Cons.IH[OF s1(3) d b] s1(1,2) show ?case by (auto simp: kv)
qed

lemma hold_map:
  assumes "slices_hold Hash s c kvs"
  shows "slices_map Hash s (map_of kvs)"
  using assms by (auto simp: slices_hold_def slices_map_def sliceIndex_def map_of_routed)

lemma KHash_get_step:
  assumes m: "slices_map Hash s m" and v: "m key = Some val"
  shows "\<exists>s'. KHashLruCaches_get Hash s key v0 = Some (True, val, s') \<and> slices_map Hash s' m"
proof -
  let ?n = "nat (sliceNum s)"
  let ?i = "sliceIndex Hash s key"
  let ?c = "lruSliceCaches s ! ?i"
  from m have n: "0 < sliceNum s" and len: "length (lruSliceCaches s) = ?n"
    and all: "\<And>i. i < ?n \<Longrightarrow> lru_inv (lruSliceCaches s ! i) \<and>
        (\<forall>key. sliceIndex Hash s key = i \<longrightarrow> map_of (entries (lruSliceCaches s ! i)) key = m key)"
    by (simp_all add: slices_map_def)
  have i: "?i < ?n" using n by (rule sliceIndex_less)
  from all[OF i] v have ci: "lru_inv ?c" "map_of (entries ?c) key = Some val" by simp_all
  from get_contents[OF ci, of v0] obtain c' where
    c': "get ?c key v0 = Some (True, val, c')" "lru_inv c'" "map_of (entries c') = map_of (entries ?c)"
    by blast
  let ?s' = "s\<lparr>lruSliceCaches := (lruSliceCaches s)[?i := c']\<rparr>"
  have g: "KHashLruCaches_get Hash s key v0 = Some (True, val, ?s')"
    using i len c'(1) by (simp add: KHashLruCaches_get_def Let_def)
  have si: "\<And>k. sliceIndex Hash ?s' k = sliceIndex Hash s k" by (simp add: sliceIndex_def)
  have "slices_map Hash ?s' m"
    unfolding slices_map_def si
  proof (intro conjI allI impI)
    show "0 < sliceNum ?s'" using n by simp
    show "length (lruSliceCaches ?s') = nat (sliceNum ?s')" using len by simp
  next
    fix j assume "j < nat (sliceNum ?s')"
    then have j: "j < ?n" by simp
    show "lru_inv (lruSliceCaches ?s' ! j)"
      using all[OF j] c'(2) len j by (cases "j = ?i") simp_all
    fix k assume "sliceIndex Hash s k = j"
    then show "map_of (entries (lruSliceCaches ?s' ! j)) k = m k"
      using all[OF j] c'(3) len j by (cases "j = ?i") simp_all
  qed
  with g show ?thesis by blast
qed

lemma KHash_get_all_map:
  assumes "slices_map Hash s m" "\<forall>key\<in>set keys. m key \<noteq> None"
  shows "KHash_get_all Hash v0 s keys = Some (map (\<lambda>key. (True, the (m key))) keys)"
  using assms
proof (induction keys arbitrary: s)
  case Nil
  then show ?case by simp
next
  case (Cons key keys)
  from Cons.prems(2) obtain val where v: "m key = Some val" by auto
  from KHash_get_step[OF Cons.prems(1) v, of v0] obtain s1 where
    s1: "KHashLruCaches_get Hash s key v0 = Some (True, val, s1)" "slices_map Hash s1 m" by blast
  from Cons.IH[OF s1(2)] Cons.prems(2) s1(1) v show ?case by simp
qed

lemma KHashLruCaches_new_hold:
  assumes "0 < n" "cap < 2 ^ 53" "ceil_div cap n < 2 ^ 31"
  shows "\<exists>s. KHashLruCaches_new k0 v0 hw cap n = Some s \<and> sliceNum s = n \<and>
           slices_hold Hash s (ceil_div cap n) []"
proof -
  from KHashLruCaches_new_small[OF assms, of k0 v0 hw] obtain s where
    s: "KHashLruCaches_new k0 v0 hw cap n = Some s" "sliceNum s = n" "length (lruSliceCaches s) = nat n"
    "\<forall>i<nat n. lruSliceCaches s ! i = LruCache_new k0 v0 (size_t_to_int (ceil_div cap n)) \<and>
              capacity (lruSliceCaches s ! i) = ceil_div cap n" by blast
  have "slices_hold Hash s (ceil_div cap n) []"
    using s(2,3,4) assms(1) slice_capacity_small[OF assms(3), of k0 v0]
    by (simp add: slices_hold_def LruCache_new_inv routed_def)
  with s(1,2) show ?thesis by blast
qed

lemma values_of_distinct:
  assumes "distinct (map fst kvs)"
  shows "map (\<lambda>key. (True, the (map_of kvs key))) (map fst kvs) = map (\<lambda>kv. (True, snd kv)) kvs"
proof -
  have "\<And>kv. kv \<in> set kvs \<Longrightarrow> map_of kvs (fst kv) = Some (snd kv)"
    using assms by (simp add: map_of_eq_Some_iff)
  then show ?thesis by (simp add: comp_def)
qed

text \<open>Claim C3, as amended: for a sharded cache with \<open>n > 0\<close> slices and total capacity
  \<open>cap\<close> (below \<open>2^53\<close>, the slice size \<open>ceil(cap / n)\<close> below \<open>2^31\<close>), after inserting pairs
  with distinct keys of which no slice receives more than \<open>ceil(cap / n)\<close>, and nothing
  else, a \<open>get\<close> of each of the keys finds it and returns its value.\<close>

theorem balanced_keys_all_found:
  assumes "0 < n" and "cap < 2 ^ 53" and "ceil_div cap n < 2 ^ 31"
    and "distinct (map fst kvs)"
    and "\<forall>i<nat n. length (routed Hash (nat n) i kvs) \<le> ceil_div cap n"
  shows "KHash_roundtrip Hash v (KHashLruCaches_new k0 v0 hw cap n) kvs =
           Some (map (\<lambda>kv. (True, snd kv)) kvs)"
proof -
  from KHashLruCaches_new_hold[OF assms(1,2,3), of k0 v0 hw Hash] obtain s where
    s: "KHashLruCaches_new k0 v0 hw cap n = Some s" "sliceNum s = n"
      "slices_hold Hash s (ceil_div cap n) []" by blast
  from KHash_put_all_hold[OF s(3), of kvs] assms(4,5) s(2) obtain s1 where
    s1: "KHash_put_all Hash s kvs = Some s1" "slices_hold Hash s1 (ceil_div cap n) kvs" by auto
  have "\<forall>key\<in>set (map fst kvs). map_of kvs key \<noteq> None"
    by (auto simp: map_of_eq_None_iff)
  from KHash_get_all_map[OF hold_map[OF s1(2)] this, of v]
  have "KHash_get_all Hash v s1 (map fst kvs) = Some (map (\<lambda>kv. (True, snd kv)) kvs)"
    by (simp only: values_of_distinct[OF assms(4)])
  with s(1) s1(1) show ?thesis by (simp add: KHash_roundtrip_def)
qed

lemmas khash_defs = KHashLruCaches_new_def KHashLruCaches_put_def KHashLruCaches_get_def
  KHash_roundtrip_def sliceIndex_def ceil_div_def size_t_to_int_def nat_hash_def routed_def

text \<open>Claim C3 as stated fails: with total capacity 2 and 2 slices, each slice has
  capacity 1; the two distinct keys 0 and 2 both go to slice 0, the second evicts the
  first, and the \<open>get\<close> of key 0 reports not-found.\<close>

theorem uneven_keys_evicted:
  "KHash_roundtrip nat_hash (99::nat) (KHashLruCaches_new (0::nat) 0 8 2 2) [(0, 10), (2, 20)] =
     Some [(False, 99), (True, 20)]"
  by (simp add: khash_defs lru_defs Let_def upt_rec)

theorem balanced_keys_all_found_witness:
  "(0::int) < 2 \<and> (2::nat) < 2 ^ 53 \<and> ceil_div 2 2 < 2 ^ 31 \<and>
   distinct (map fst [(0::nat, 10::nat), (1, 20)]) \<and>
   length (routed nat_hash (nat 2) 0 [(0::nat, 10::nat), (1, 20)]) \<le> ceil_div 2 2 \<and>
   length (routed nat_hash (nat 2) 1 [(0::nat, 10::nat), (1, 20)]) \<le> ceil_div 2 2 \<and>
   KHash_roundtrip nat_hash (99::nat) (KHashLruCaches_new (0::nat) 0 8 2 2) [(0, 10), (1, 20)] =
     Some [(True, 10), (True, 20)]"
proof -
  have h: "(0::int) < 2" "(2::nat) < 2 ^ 53" "ceil_div 2 2 < 2 ^ 31"
    "distinct (map fst [(0::nat, 10::nat), (1, 20)])"
    by (simp_all add: ceil_div_def)
  have r: "length (routed nat_hash (nat 2) 0 [(0::nat, 10::nat), (1, 20)]) \<le> ceil_div 2 2"
    "length (routed nat_hash (nat 2) 1 [(0::nat, 10::nat), (1, 20)]) \<le> ceil_div 2 2"
    by (simp_all add: ceil_div_def routed_def nat_hash_def)
  then have b: "\<forall>i<nat 2. length (routed nat_hash (nat 2) i [(0::nat, 10::nat), (1, 20)]) \<le> ceil_div 2 2"
    by (auto simp: less_Suc_eq numeral_2_eq_2)
  from balanced_keys_all_found[OF h b, of 99 0 0 8] h r show ?thesis by simp
qed
section \<open>Properties of the LFU core\<close>

lemma map_of_delete: "map_of (AList.delete k al) k' = (if k' = k then None else map_of al k')"
  by (simp add: delete_conv')

lemma map_of_update: "map_of (AList.update k v al) k' = (if k' = k then Some v else map_of al k')"
  by (simp add: update_conv')

lemma map_of_snoc:
  "map_of (al @ [(k, v)]) k' = (case map_of al k' of Some w \<Rightarrow> Some w | None \<Rightarrow> if k' = k then Some v else None)"
  by (auto simp: map_add_def split: option.splits)

lemma map_of_halved:
  "map_of (map (\<lambda>(key, val, f). (key, val, halve f)) al) k =
     map_option (\<lambda>(val, f). (val, halve f)) (map_of al k)"
  by (induction al) auto

lemma evict_fields:
  "lfu_capacity (evict s) = lfu_capacity s"
  "map_of (lfu_index (evict s)) key = None \<or> map_of (lfu_index (evict s)) key = map_of (lfu_index s) key"
  by (auto simp: evict_def map_of_delete split: option.splits)

lemma evict_absent:
  "map_of (lfu_index s) key = None \<Longrightarrow> map_of (lfu_index (evict s)) key = None"
  using evict_fields(2)[of s key] by auto

lemma check_aging_fields:
  "lfu_capacity (check_aging s) = lfu_capacity s"
  "map_option fst (map_of (lfu_index (check_aging s)) key) = map_option fst (map_of (lfu_index s) key)"
  "\<not> aging_due s \<Longrightarrow> check_aging s = s"
  by (auto simp: check_aging_def aging_sweep_def Let_def map_of_halved option.map_comp comp_def
      split_beta intro!: option.map_cong)

lemma lfu_put_core_index:
  "map_of (lfu_index (lfu_put_core s key val)) k =
     (if k = key then
        (case map_of (lfu_index s) key of
           Some (old, f) \<Rightarrow> Some (val, f + 1)
         | None \<Rightarrow> Some (val, 1))
      else if map_of (lfu_index s) key = None \<and> length (lfu_index s) = lfu_capacity s
        then map_of (lfu_index (evict s)) k
      else map_of (lfu_index s) k)"
  by (auto simp: lfu_put_core_def promote_core_def Let_def map_of_update map_of_snoc evict_absent
      simp del: map_of_append split: option.splits)

lemma lfu_get_core_index:
  "map_of (lfu_index (lfu_get_core s key)) k =
     (if k = key then map_option (\<lambda>(val, f). (val, f + 1)) (map_of (lfu_index s) key)
      else map_of (lfu_index s) k)"
  by (auto simp: lfu_get_core_def promote_core_def Let_def map_of_update split: option.splits)

lemma lfu_capacity_core:
  "lfu_capacity (lfu_put_core s key val) = lfu_capacity s"
  "lfu_capacity (lfu_get_core s key) = lfu_capacity s"
  by (auto simp: lfu_put_core_def lfu_get_core_def promote_core_def Let_def evict_fields
      split: option.splits)

lemma lfu_step_capacity: "lfu_capacity (lfu_step s op) = lfu_capacity s"
  by (cases op) (auto simp: lfu_put_def lfu_get_def check_aging_fields lfu_capacity_core
      split: option.splits)

lemma lfu_step_quiet:
  assumes "\<not> sweep_fires s op" "lfu_capacity s \<noteq> 0"
  shows "lfu_step s op = (case op of Put key val \<Rightarrow> lfu_put_core s key val | Get key \<Rightarrow> lfu_get_core s key)"
  using assms
  by (cases op) (auto simp: lfu_put_def lfu_get_def lfu_get_core_def lfu_resident_def check_aging_fields
      split: option.splits)

lemma created_frequency:
  assumes "lfu_capacity s \<noteq> 0" "\<not> lfu_resident s key" "\<not> sweep_fires s (Put key val)"
  shows "frequency_of (lfu_put s key val) key = Some 1"
proof -
  have "map_of (lfu_index s) key = None" using assms(2) unfolding lfu_resident_def by blast
  moreover have "lfu_put s key val = lfu_put_core s key val"
    using assms(1,3) lfu_step_quiet[of s "Put key val"] by simp
  ultimately show ?thesis by (simp add: frequency_of_def lfu_put_core_index)
qed

lemma promoted_frequency:
  assumes "lfu_capacity s \<noteq> 0" "frequency_of s key = Some f" "\<not> sweep_fires s op" "op_key op = key"
  shows "frequency_of (lfu_step s op) key = Some (f + 1)"
  using assms lfu_step_quiet[of s op]
  by (cases op) (auto simp: frequency_of_def lfu_put_core_index lfu_get_core_index split: option.splits)

lemma untouched_frequency:
  assumes "lfu_capacity s \<noteq> 0" "frequency_of s key = Some f" "\<not> sweep_fires s op" "op_key op \<noteq> key"
    and "lfu_resident (lfu_step s op) key"
  shows "frequency_of (lfu_step s op) key = Some f"
proof (cases op)
  case (Get k)
  then show ?thesis using assms lfu_step_quiet[of s op]
    by (auto simp: frequency_of_def lfu_get_core_index)
next
  case (Put k val)
  then have e: "lfu_step s op = lfu_put_core s k val" and ne: "key \<noteq> k"
    using assms lfu_step_quiet[of s op] by auto
  from assms(5) have r: "map_of (lfu_index (lfu_put_core s k val)) key \<noteq> None"
    by (simp add: e lfu_resident_def)
  show ?thesis
    using r assms(2) ne evict_fields(2)[of s key]
    by (auto simp: e frequency_of_def lfu_put_core_index split: if_splits)
qed

lemma run_frequency:
  assumes "lfu_capacity s \<noteq> 0" "frequency_of s key = Some f" "quiet s ops" "stays_resident key s ops"
  shows "frequency_of (lfu_run s ops) key = Some (f + calls_on key ops)"
  using assms
proof (induction ops arbitrary: s f)
  case Nil
  then show ?case by (simp add: calls_on_def)
next
  case (Cons op ops)
  from Cons.prems have q: "\<not> sweep_fires s op" "quiet (lfu_step s op) ops"
    and r: "lfu_resident (lfu_step s op) key" "stays_resident key (lfu_step s op) ops"
    by simp_all
  have c: "lfu_capacity (lfu_step s op) \<noteq> 0" using Cons.prems(1) by (simp add: lfu_step_capacity)
  show ?case
  proof (cases "op_key op = key")
    case True
    from promoted_frequency[OF Cons.prems(1,2) q(1) True]
    have "frequency_of (lfu_step s op) key = Some (f + 1)" .
    from Cons.IH[OF c this q(2) r(2)] True show ?thesis by (simp add: calls_on_def)
  next
    case False
    from untouched_frequency[OF Cons.prems(1,2) q(1) False r(1)]
    have "frequency_of (lfu_step s op) key = Some f" .
    from Cons.IH[OF c this q(2) r(2)] False show ?thesis by (simp add: calls_on_def)
  qed
qed

text \<open>Claim C8 (on the LFU core as the specification words it): a key created by a \<open>put\<close>
  has frequency 1, and after any further calls during which no aging sweep fires and the
  key stays resident, of which \<open>n\<close> are \<open>get\<close> or \<open>put\<close> calls on that key (all of them
  successful, the key being resident), its frequency is \<open>1 + n\<close>.\<close>

theorem promotion_frequency:
  assumes "lfu_capacity s \<noteq> 0" and "\<not> lfu_resident s key"
    and "quiet s (Put key val # ops)" and "stays_resident key (lfu_put s key val) ops"
  shows "frequency_of (lfu_put s key val) key = Some 1 \<and>
         frequency_of (lfu_run s (Put key val # ops)) key = Some (1 + calls_on key ops)"
proof -
  from assms(3) have q: "\<not> sweep_fires s (Put key val)" "quiet (lfu_put s key val) ops" by simp_all
  have 1: "frequency_of (lfu_put s key val) key = Some 1"
    using assms(1,2) q(1) by (rule created_frequency)
  have c: "lfu_capacity (lfu_put s key val) \<noteq> 0"
    using assms(1) lfu_step_capacity[of s "Put key val"] by simp
  from run_frequency[OF c 1 q(2) assms(4)] 1 show ?thesis by simp
qed

theorem promotion_frequency_witness:
  "lfu_capacity (LfuCache_new 3 1000 :: (nat, nat) LfuCore) \<noteq> 0 \<and>
   \<not> lfu_resident (LfuCache_new 3 1000 :: (nat, nat) LfuCore) 1 \<and>
   quiet (LfuCache_new 3 1000 :: (nat, nat) LfuCore) (Put 1 10 # [Get 1, Put 2 20, Put 1 11, Get 2]) \<and>
   stays_resident 1 (lfu_put (LfuCache_new 3 1000 :: (nat, nat) LfuCore) 1 10)
     [Get 1, Put 2 20, Put 1 11, Get 2] \<and>
   frequency_of (lfu_put (LfuCache_new 3 1000 :: (nat, nat) LfuCore) 1 10) 1 = Some 1 \<and>
   frequency_of (lfu_run (LfuCache_new 3 1000 :: (nat, nat) LfuCore)
     (Put 1 10 # [Get 1, Put 2 20, Put 1 11, Get 2])) 1 = Some 3"
proof -
  let ?s = "LfuCache_new 3 1000 :: (nat, nat) LfuCore"
  let ?ops = "[Get 1, Put 2 20, Put 1 11, Get 2] :: (nat, nat) lru_op list"
  have h: "lfu_capacity ?s \<noteq> 0" "\<not> lfu_resident ?s 1" "quiet ?s (Put 1 10 # ?ops)"
    "stays_resident 1 (lfu_put ?s 1 10) ?ops"
    by code_simp+
  have c: "calls_on 1 ?ops = 2" by code_simp
  from promotion_frequency[OF h] h c show ?thesis by simp
qed

section \<open>Overwriting a value\<close>

lemma put_resident:
  assumes inv: "lru_inv s" and cap: "capacity s \<noteq> 0"
  shows "\<exists>s'. put s key val = Some s' \<and> lru_inv s' \<and> capacity s' = capacity s \<and>
           nodeMap s' key \<noteq> None \<and> map_of (entries s') key = Some val"
proof -
  have f: "\<And>es. map_of (filter (\<lambda>e. fst e \<noteq> key) es) key = None"
    by (auto simp: map_of_eq_None_iff)
  have "\<exists>s'. put s key val = Some s' \<and> lru_inv s' \<and> capacity s' = capacity s \<and>
           map_of (entries s') key = Some val"
  proof (cases "nodeMap s key")
    case (Some x)
    from put_existing[OF inv cap Some, of val] show ?thesis
      by (auto simp: map_add_def f)
  next
    case None
    then have "key \<notin> dom (nodeMap s)" by auto
    then have k: "key \<notin> fst ` set (entries s)"
      using lru_inv_index(1)[OF inv] by (simp add: lru_keys_entries)
    then have "key \<notin> fst ` set (tl (entries s))" by (cases "entries s") auto
    with k have "map_of (tl (entries s)) key = None" "map_of (entries s) key = None"
      by (simp_all add: map_of_eq_None_iff)
    with put_new[OF inv cap None, of val] show ?thesis
      by (auto simp: map_add_def)
  qed
  then obtain s' where s': "put s key val = Some s'" "lru_inv s'" "capacity s' = capacity s"
    "map_of (entries s') key = Some val" by blast
  from s'(4) map_of_entries[OF s'(2), of key] have "nodeMap s' key \<noteq> None" by auto
  with s' show ?thesis by blast
qed

lemma lru_overwrite:
  assumes "reachable c" "1 \<le> capacity c"
  shows "\<exists>c1 c2 c3. put c key v1 = Some c1 \<and> put c1 key v2 = Some c2 \<and>
           get c2 key v = Some (True, v2, c3) \<and> nodeMap c2 key \<noteq> None \<and> nodeMap c3 key \<noteq> None"
proof -
  have inv: "lru_inv c" using assms(1) by (rule reachable_inv)
  have cap: "capacity c \<noteq> 0" using assms(2) by simp
  from put_resident[OF inv cap, of key v1] obtain c1 where
    c1: "put c key v1 = Some c1" "lru_inv c1" "capacity c1 = capacity c" by blast
  from put_resident[OF c1(2), of key v2] cap c1(3) obtain c2 where
    c2: "put c1 key v2 = Some c2" "lru_inv c2" "nodeMap c2 key \<noteq> None"
      "map_of (entries c2) key = Some v2" by auto
  from get_contents[OF c2(2,4), of v] obtain c3 where
    c3: "get c2 key v = Some (True, v2, c3)" by blast
  from get_nodeMap(1)[OF c3] c2(3) have "nodeMap c3 key \<noteq> None" by simp
  with c1(1) c2(1,3) c3 show ?thesis by blast
qed

lemma lfu_put_value:
  assumes "lfu_capacity s \<noteq> 0"
  shows "map_option fst (map_of (lfu_index (lfu_put s key val)) key) = Some val"
  using assms
  by (simp add: lfu_put_def check_aging_fields(2) lfu_put_core_index split: option.splits)

lemma lfu_overwrite:
  assumes "lfu_capacity s \<noteq> 0"
  shows "fst (lfu_get (lfu_put (lfu_put s key v1) key v2) key) = Some v2"
    and "lfu_resident (lfu_put (lfu_put s key v1) key v2) key"
    and "lfu_resident (snd (lfu_get (lfu_put (lfu_put s key v1) key v2) key)) key"
proof -
  let ?s1 = "lfu_put s key v1"
  let ?s2 = "lfu_put ?s1 key v2"
  have c1: "lfu_capacity ?s1 \<noteq> 0" using assms lfu_step_capacity[of s "Put key v1"] by simp
  from lfu_put_value[OF c1, of key v2] obtain f where
    2: "map_of (lfu_index ?s2) key = Some (v2, f)" by auto
  then show "fst (lfu_get ?s2 key) = Some v2" "lfu_resident ?s2 key"
    by (simp_all add: lfu_get_def lfu_resident_def)
  have "map_option fst (map_of (lfu_index (snd (lfu_get ?s2 key))) key) = Some v2"
    using 2 by (simp add: lfu_get_def check_aging_fields(2) lfu_get_core_index)
  then show "lfu_resident (snd (lfu_get ?s2 key)) key" by (auto simp: lfu_resident_def)
qed

lemma lfu_overwrite_frequency:
  assumes "lfu_capacity s \<noteq> 0" "\<not> lfu_resident s key" "quiet s [Put key v1, Put key v2]"
  shows "frequency_of (lfu_put (lfu_put s key v1) key v2) key = Some 2"
proof -
  from assms(3) have q: "\<not> sweep_fires s (Put key v1)" "\<not> sweep_fires (lfu_put s key v1) (Put key v2)"
    by simp_all
  have 1: "frequency_of (lfu_put s key v1) key = Some 1"
    using assms(1,2) q(1) by (rule created_frequency)
  have c: "lfu_capacity (lfu_put s key v1) \<noteq> 0"
    using assms(1) lfu_step_capacity[of s "Put key v1"] by simp
  from promoted_frequency[OF c 1 q(2)] show ?thesis by simp
qed

text \<open>Claim C4, as amended: on a cache with capacity \<open>\<ge> 1\<close>, after \<open>put(k, v1); put(k, v2)\<close>
  the key is resident and \<open>get(k)\<close> returns \<open>v2\<close> and leaves it resident: in \<open>LruCache\<close> (first
  part, for every cache the public interface can produce) and in the LFU core as the
  specification words it (second part). In the LFU core the frequency of the key after
  the two calls is 2, provided the key was not resident before them and no aging sweep
  fires during them (third part). An \<open>LruCache\<close> node has no frequency.\<close>

theorem overwrite_then_get:
  "(reachable c \<and> 1 \<le> capacity c \<longrightarrow>
      (\<exists>c1 c2 c3. put c key v1 = Some c1 \<and> put c1 key v2 = Some c2 \<and>
         get c2 key v = Some (True, v2, c3) \<and> nodeMap c2 key \<noteq> None \<and> nodeMap c3 key \<noteq> None)) \<and>
   (lfu_capacity s \<noteq> 0 \<longrightarrow>
      fst (lfu_get (lfu_put (lfu_put s key v1) key v2) key) = Some v2 \<and>
      lfu_resident (lfu_put (lfu_put s key v1) key v2) key \<and>
      lfu_resident (snd (lfu_get (lfu_put (lfu_put s key v1) key v2) key)) key) \<and>
   (lfu_capacity s \<noteq> 0 \<and> \<not> lfu_resident s key \<and> quiet s [Put key v1, Put key v2] \<longrightarrow>
      frequency_of (lfu_put (lfu_put s key v1) key v2) key = Some 2)"
  using lru_overwrite[of c key v1 v2 v] lfu_overwrite[of s key v1 v2]
    lfu_overwrite_frequency[of s key v1 v2]
  by blast

text \<open>Claim C4 as stated fails in the LFU core of the specification: with capacity 1 and
  \<open>maxAverageFrequency = 1\<close>, the second \<open>put\<close> raises the frequency to 2 and the counter
  to 2, the average 2 exceeds 1, the sweep halves the frequency, and it is 1 after the two
  calls.\<close>

theorem overwrite_aged_frequency:
  "lfu_capacity (LfuCache_new 1 1 :: (nat, nat) LfuCore) = 1 \<and>
   \<not> lfu_resident (LfuCache_new 1 1 :: (nat, nat) LfuCore) 7 \<and>
   frequency_of (lfu_put (lfu_put (LfuCache_new 1 1 :: (nat, nat) LfuCore) 7 10) 7 20) 7 = Some 1"
  by code_simp

theorem overwrite_then_get_witness:
  "reachable (LruCache_new (0::nat) (0::nat) 2) \<and> 1 \<le> capacity (LruCache_new (0::nat) (0::nat) 2) \<and>
   (\<exists>c1 c2 c3. put (LruCache_new (0::nat) (0::nat) 2) 5 10 = Some c1 \<and> put c1 5 20 = Some c2 \<and>
      get c2 5 0 = Some (True, 20, c3) \<and> nodeMap c2 5 \<noteq> None \<and> nodeMap c3 5 \<noteq> None) \<and>
   lfu_capacity (LfuCache_new 2 1000 :: (nat, nat) LfuCore) \<noteq> 0 \<and>
   \<not> lfu_resident (LfuCache_new 2 1000 :: (nat, nat) LfuCore) 5 \<and>
   quiet (LfuCache_new 2 1000 :: (nat, nat) LfuCore) [Put 5 10, Put 5 20] \<and>
   fst (lfu_get (lfu_put (lfu_put (LfuCache_new 2 1000 :: (nat, nat) LfuCore) 5 10) 5 20) 5) = Some 20 \<and>
   lfu_resident (lfu_put (lfu_put (LfuCache_new 2 1000 :: (nat, nat) LfuCore) 5 10) 5 20) 5 \<and>
   frequency_of (lfu_put (lfu_put (LfuCache_new 2 1000 :: (nat, nat) LfuCore) 5 10) 5 20) 5 = Some 2"
proof -
  let ?c = "LruCache_new (0::nat) (0::nat) 2"
  let ?s = "LfuCache_new 2 1000 :: (nat, nat) LfuCore"
  have hc: "reachable ?c" "1 \<le> capacity ?c"
    by (rule r_new) (simp add: LruCache_new_fields)
  have hs: "lfu_capacity ?s \<noteq> 0" "\<not> lfu_resident ?s 5" "quiet ?s [Put 5 10, Put 5 20]"
    by code_simp+
  from overwrite_then_get[of ?c 5 10 20 0 ?s] hc hs show ?thesis by blast
qed

end
